theory Spec2Isabelle
  imports Complex_Main
begin

section \<open>Python values used by the Buddy client and server\<close>

text \<open>
  A Python \<open>str\<close> is a sequence of Unicode code points, a \<open>bytes\<close> object a sequence
  of octets. Text is a list of code points (\<open>nat\<close>), bytes are a list of \<open>char\<close>
  (the 8-bit type of HOL). \<open>ustr\<close> turns an ASCII literal into text.
\<close>

type_synonym pystr = "nat list"

type_synonym bytes = "char list"

definition ustr :: "string \<Rightarrow> pystr" where
  "ustr s = map of_char s"

text \<open>The exceptions the modelled code can meet. \<open>OSError\<close> carries its subclass:
  the \<open>except (..., OSError)\<close> clauses of the source catch the whole family, and a
  socket operation raises nothing else.\<close>

datatype os_kind =
    Generic_OSError
  | ConnectionResetError
  | ConnectionAbortedError
  | BrokenPipeError
  | FileNotFoundError
  | Timeout

datatype exn =
    JSONDecodeError
  | RecursionError
  | AttributeError
  | UnicodeDecodeError
  | UnicodeEncodeError
  | IndexError
  | TypeError
  | ValueError
  | RuntimeError
  | KeyError
  | OSError os_kind
  | CalledProcessError
  | TimeoutExpired
  | OtherException

fun is_OSError :: "exn \<Rightarrow> bool" where
  "is_OSError (OSError k) = True"
| "is_OSError _ = False"

subsection \<open>\<open>bytes.decode()\<close>: strict UTF-8\<close>

definition cont_in :: "nat \<Rightarrow> nat \<Rightarrow> nat \<Rightarrow> bool" where
  "cont_in lo hi b = (lo \<le> b \<and> b \<le> hi)"

text \<open>\<open>None\<close> is \<open>UnicodeDecodeError\<close>: an invalid start byte, an invalid
  continuation byte, or a sequence cut off by the end of the data.\<close>

fun utf8_decode :: "nat list \<Rightarrow> pystr option" where
  "utf8_decode [] = Some []"
| "utf8_decode (b0 # bs) =
     (if b0 < 0x80 then map_option ((#) b0) (utf8_decode bs)
      else if 0xC2 \<le> b0 \<and> b0 \<le> 0xDF then
        (case bs of
           b1 # r \<Rightarrow>
             if cont_in 0x80 0xBF b1
             then map_option ((#) ((b0 - 0xC0) * 64 + (b1 - 0x80))) (utf8_decode r)
             else None
         | _ \<Rightarrow> None)
      else if 0xE0 \<le> b0 \<and> b0 \<le> 0xEF then
        (case bs of
           b1 # b2 # r \<Rightarrow>
             if cont_in (if b0 = 0xE0 then 0xA0 else 0x80) (if b0 = 0xED then 0x9F else 0xBF) b1
                \<and> cont_in 0x80 0xBF b2
             then map_option
                    ((#) ((b0 - 0xE0) * 4096 + (b1 - 0x80) * 64 + (b2 - 0x80)))
                    (utf8_decode r)
             else None
         | _ \<Rightarrow> None)
      else if 0xF0 \<le> b0 \<and> b0 \<le> 0xF4 then
        (case bs of
           b1 # b2 # b3 # r \<Rightarrow>
             if cont_in (if b0 = 0xF0 then 0x90 else 0x80) (if b0 = 0xF4 then 0x8F else 0xBF) b1
                \<and> cont_in 0x80 0xBF b2 \<and> cont_in 0x80 0xBF b3
             then map_option
                    ((#) ((b0 - 0xF0) * 262144 + (b1 - 0x80) * 4096 + (b2 - 0x80) * 64
                          + (b3 - 0x80)))
                    (utf8_decode r)
             else None
         | _ \<Rightarrow> None)
      else None)"

definition decode :: "bytes \<Rightarrow> pystr option" where
  "decode data = utf8_decode (map of_char data)"

subsection \<open>\<open>str.split(sep, 1)\<close>, \<open>str.strip()\<close>\<close>

definition NL :: nat where
  "NL = 0x0A"

text \<open>\<open>buffer.split('\n', 1)\<close> when \<open>'\n' in buffer\<close>: the part before the first
  newline and the part after it.\<close>

definition split1 :: "pystr \<Rightarrow> pystr \<times> pystr" where
  "split1 buffer = (takeWhile (\<lambda>c. c \<noteq> NL) buffer, tl (dropWhile (\<lambda>c. c \<noteq> NL) buffer))"

text \<open>The code points for which \<open>str.isspace()\<close> holds; \<open>str.strip()\<close> removes them
  from both ends.\<close>

definition py_isspace :: "nat \<Rightarrow> bool" where
  "py_isspace c =
     ((0x09 \<le> c \<and> c \<le> 0x0D) \<or> (0x1C \<le> c \<and> c \<le> 0x20) \<or> c = 0x85 \<or> c = 0xA0
      \<or> c = 0x1680 \<or> (0x2000 \<le> c \<and> c \<le> 0x200A) \<or> c = 0x2028 \<or> c = 0x2029
      \<or> c = 0x202F \<or> c = 0x205F \<or> c = 0x3000)"

definition strip :: "pystr \<Rightarrow> pystr" where
  "strip s = rev (dropWhile py_isspace (rev (dropWhile py_isspace s)))"

section \<open>The \<open>json\<close> module: values, \<open>json.loads\<close>, \<open>json.dumps\<close>\<close>

text \<open>A decoded JSON value. A number keeps its lexeme; an object is the Python \<open>dict\<close>
  built from its members, in insertion order.\<close>

datatype json =
    JNull
  | JBool bool
  | JNum pystr
  | JStr pystr
  | JArr "json list"
  | JObj "(pystr \<times> json) list"

text \<open>\<open>d[k] = v\<close>: an existing key keeps its place and takes the new value, a new key
  goes to the end.\<close>

fun dict_set :: "('k \<times> 'v) list \<Rightarrow> 'k \<Rightarrow> 'v \<Rightarrow> ('k \<times> 'v) list" where
  "dict_set [] k v = [(k, v)]"
| "dict_set ((k', v') # d) k v = (if k' = k then (k, v) # d else (k', v') # dict_set d k v)"

text \<open>\<open>d.get(k, default)\<close>.\<close>

definition dict_get :: "('k \<times> 'v) list \<Rightarrow> 'k \<Rightarrow> 'v \<Rightarrow> 'v" where
  "dict_get d k dflt = (case map_of d k of Some v \<Rightarrow> v | None \<Rightarrow> dflt)"

definition json_ws :: "nat \<Rightarrow> bool" where
  "json_ws c = (c = 0x20 \<or> c = 0x09 \<or> c = 0x0A \<or> c = 0x0D)"

definition skip_ws :: "pystr \<Rightarrow> pystr" where
  "skip_ws s = dropWhile json_ws s"

definition is_digit :: "nat \<Rightarrow> bool" where
  "is_digit c = (0x30 \<le> c \<and> c \<le> 0x39)"

definition hexval :: "nat \<Rightarrow> nat option" where
  "hexval c =
     (if 0x30 \<le> c \<and> c \<le> 0x39 then Some (c - 0x30)
      else if 0x61 \<le> c \<and> c \<le> 0x66 then Some (c - 0x61 + 10)
      else if 0x41 \<le> c \<and> c \<le> 0x46 then Some (c - 0x41 + 10)
      else None)"

text \<open>\<open>_decode_uXXXX\<close>: exactly four hexadecimal digits.\<close>

definition decode_uXXXX :: "pystr \<Rightarrow> (nat \<times> pystr) option" where
  "decode_uXXXX s =
     (case s of
        a # b # c # d # rest \<Rightarrow>
          (case (hexval a, hexval b, hexval c, hexval d) of
             (Some x3, Some x2, Some x1, Some x0) \<Rightarrow>
               Some (x3 * 4096 + x2 * 256 + x1 * 16 + x0, rest)
           | _ \<Rightarrow> None)
      | _ \<Rightarrow> None)"

text \<open>The \<open>BACKSLASH\<close> table of the decoder.\<close>

definition backslash :: "nat \<Rightarrow> nat option" where
  "backslash e =
     (if e = 0x22 then Some 0x22
      else if e = 0x5C then Some 0x5C
      else if e = 0x2F then Some 0x2F
      else if e = 0x62 then Some 0x08
      else if e = 0x66 then Some 0x0C
      else if e = 0x6E then Some 0x0A
      else if e = 0x72 then Some 0x0D
      else if e = 0x74 then Some 0x09
      else None)"

lemma decode_uXXXX_shorter: "decode_uXXXX s = Some (n, r) \<Longrightarrow> length r < length s"
  by (auto simp: decode_uXXXX_def split: list.splits option.splits)

text \<open>\<open>scanstring\<close> in strict mode, called after the opening quote; \<open>acc\<close> is the
  text decoded so far. \<open>None\<close> is \<open>JSONDecodeError\<close>.\<close>

function scanstring :: "pystr \<Rightarrow> pystr \<Rightarrow> (pystr \<times> pystr) option" where
  "scanstring acc [] = None"
| "scanstring acc (c # s) =
     (if c = 0x22 then Some (acc, s)
      else if c = 0x5C then
        (case s of
           [] \<Rightarrow> None
         | e # s1 \<Rightarrow>
             if e = 0x75 then
               (case decode_uXXXX s1 of
                  None \<Rightarrow> None
                | Some (uni, s2) \<Rightarrow>
                    if 0xD800 \<le> uni \<and> uni \<le> 0xDBFF \<and> take 2 s2 = [0x5C, 0x75] then
                      (case decode_uXXXX (drop 2 s2) of
                         None \<Rightarrow> None
                       | Some (uni2, s3) \<Rightarrow>
                           if 0xDC00 \<le> uni2 \<and> uni2 \<le> 0xDFFF
                           then scanstring
                                  (acc @ [0x10000 + ((uni - 0xD800) * 1024 + (uni2 - 0xDC00))]) s3
                           else scanstring (acc @ [uni]) s2)
                    else scanstring (acc @ [uni]) s2)
             else
               (case backslash e of
                  None \<Rightarrow> None
                | Some ch \<Rightarrow> scanstring (acc @ [ch]) s1))
      else if c < 0x20 then None
      else scanstring (acc @ [c]) s)"
  by pat_completeness auto
termination
proof (relation "measure (\<lambda>(acc, s). length s)", goal_cases)
  case 1
  show ?case by simp
next
  case (2 acc c s e s1 x uni s2 y uni2 s3)
  then have "length s3 < length (drop 2 s2)" "length s2 < length s1"
    using decode_uXXXX_shorter by metis+
  with 2 show ?case by simp
next
  case (3 acc c s e s1 x uni s2 y uni2 s3)
  then have "length s2 < length s1"
    using decode_uXXXX_shorter by metis
  with 3 show ?case by simp
next
  case (4 acc c s e s1 x uni s2)
  then have "length s2 < length s1"
    using decode_uXXXX_shorter by metis
  with 4 show ?case by simp
next
  case 5
  then show ?case by simp
next
  case 6
  then show ?case by simp
qed


text \<open>\<open>NUMBER_RE\<close>: an optional minus sign and an integer part (\<open>0\<close>, or a non-zero
  digit and digits), an optional fraction (a dot and at least one digit), an optional
  exponent. The result is the lexeme and the text after it.\<close>

definition match_int :: "pystr \<Rightarrow> (pystr \<times> pystr) option" where
  "match_int s =
     (let (sign, r) = (if take 1 s = [0x2D] then ([0x2D], drop 1 s) else ([], s))
      in case r of
           [] \<Rightarrow> None
         | d # r1 \<Rightarrow>
             if d = 0x30 then Some (sign @ [d], r1)
             else if is_digit d then Some (sign @ d # takeWhile is_digit r1, dropWhile is_digit r1)
             else None)"

definition match_frac :: "pystr \<Rightarrow> pystr \<times> pystr" where
  "match_frac s =
     (case s of
        p # d # r \<Rightarrow>
          if p = 0x2E \<and> is_digit d
          then (p # d # takeWhile is_digit r, dropWhile is_digit r)
          else ([], s)
      | _ \<Rightarrow> ([], s))"

definition match_exp :: "pystr \<Rightarrow> pystr \<times> pystr" where
  "match_exp s =
     (case s of
        [] \<Rightarrow> ([], s)
      | e # r \<Rightarrow>
          if e = 0x65 \<or> e = 0x45 then
            (let (sg, r1) = (if take 1 r = [0x2D] \<or> take 1 r = [0x2B]
                               then (take 1 r, drop 1 r) else ([], r))
             in if r1 \<noteq> [] \<and> is_digit (hd r1)
                then (e # sg @ takeWhile is_digit r1, dropWhile is_digit r1)
                else ([], s))
          else ([], s))"

definition match_number :: "pystr \<Rightarrow> (pystr \<times> pystr) option" where
  "match_number s =
     (case match_int s of
        None \<Rightarrow> None
      | Some (i, r) \<Rightarrow>
          (let (f, r1) = match_frac r; (e, r2) = match_exp r1
           in Some (i @ f @ e, r2)))"

text \<open>\<open>string[idx:idx + n] == lit\<close>.\<close>

definition starts_with :: "pystr \<Rightarrow> pystr \<Rightarrow> bool" where
  "starts_with lit s = (take (length lit) s = lit)"

text \<open>
  What the decoder depends on in the interpreter: \<open>recursion_depth\<close>, the number of
  containers (objects and arrays) inside one another that it can enter before the
  interpreter raises \<open>RecursionError\<close> (what is left of the recursion limit when
  \<open>json.loads\<close> is called), and \<open>int_max_str_digits\<close>, the value of
  \<open>sys.get_int_max_str_digits()\<close>: the conversion of an integer lexeme of more digits
  raises \<open>ValueError\<close>; 0 stands for no limit (also an interpreter that has none), and
  a lexeme of up to 640 digits is never refused.
\<close>

record interpreter =
  recursion_depth :: nat
  int_max_str_digits :: nat

definition int_too_long :: "nat \<Rightarrow> pystr \<Rightarrow> bool" where
  "int_too_long maxd lexeme =
     (list_all (\<lambda>c. is_digit c \<or> c = 0x2D) lexeme
      \<and> 640 < length (filter is_digit lexeme)
      \<and> 0 < maxd \<and> maxd < length (filter is_digit lexeme))"

text \<open>
  The scanner (\<open>scan_once\<close>, \<open>JSONObject\<close>, \<open>JSONArray\<close>). \<open>JSONObject\<close> is entered
  after the opening quote of a member's key with the members read so far, \<open>JSONArray\<close>
  at the start of an element. \<open>depth\<close> is the number of containers that can still be
  entered and \<open>maxd\<close> the limit on the digits of an integer. The first argument is not
  part of the decoder: it bounds the number of calls, so that the three functions are
  defined by recursion on it, and \<open>None\<close> says that it was too small; twice the length
  of the text and two is always enough (\<open>scan_once_enough_fuel\<close> below).
\<close>

abbreviation Raise :: "exn \<Rightarrow> (exn + 'a) option" where
  "Raise e \<equiv> Some (Inl e)"

abbreviation Return :: "'a \<Rightarrow> (exn + 'a) option" where
  "Return x \<equiv> Some (Inr x)"

fun scan_once :: "nat \<Rightarrow> nat \<Rightarrow> nat \<Rightarrow> pystr \<Rightarrow> (exn + json \<times> pystr) option"
  and JSONObject ::
    "nat \<Rightarrow> nat \<Rightarrow> nat \<Rightarrow> (pystr \<times> json) list \<Rightarrow> pystr \<Rightarrow> (exn + json \<times> pystr) option"
  and JSONArray :: "nat \<Rightarrow> nat \<Rightarrow> nat \<Rightarrow> json list \<Rightarrow> pystr \<Rightarrow> (exn + json \<times> pystr) option"
where
  "scan_once 0 depth maxd s = None"
| "scan_once (Suc n) depth maxd s =
     (case s of
        [] \<Rightarrow> Raise JSONDecodeError
      | c # r \<Rightarrow>
          if c = 0x22 then
            (case scanstring [] r of
               None \<Rightarrow> Raise JSONDecodeError
             | Some (str, r1) \<Rightarrow> Return (JStr str, r1))
          else if c = 0x7B then
            (case depth of
               0 \<Rightarrow> Raise RecursionError
             | Suc inner \<Rightarrow>
                 (case skip_ws r of
                    [] \<Rightarrow> Raise JSONDecodeError
                  | d # r1 \<Rightarrow>
                      if d = 0x7D then Return (JObj [], r1)
                      else if d = 0x22 then JSONObject n inner maxd [] r1
                      else Raise JSONDecodeError))
          else if c = 0x5B then
            (case depth of
               0 \<Rightarrow> Raise RecursionError
             | Suc inner \<Rightarrow>
                 (case skip_ws r of
                    [] \<Rightarrow> Raise JSONDecodeError
                  | d # r1 \<Rightarrow>
                      if d = 0x5D then Return (JArr [], r1)
                      else JSONArray n inner maxd [] (d # r1)))
          else if starts_with (ustr ''null'') s then Return (JNull, drop 4 s)
          else if starts_with (ustr ''true'') s then Return (JBool True, drop 4 s)
          else if starts_with (ustr ''false'') s then Return (JBool False, drop 5 s)
          else
            (case match_number s of
               Some (lexeme, r1) \<Rightarrow>
                 if int_too_long maxd lexeme then Raise ValueError
                 else Return (JNum lexeme, r1)
             | None \<Rightarrow>
                 if starts_with (ustr ''NaN'') s then Return (JNum (ustr ''NaN''), drop 3 s)
                 else if starts_with (ustr ''Infinity'') s
                   then Return (JNum (ustr ''Infinity''), drop 8 s)
                 else if starts_with (ustr ''-Infinity'') s
                   then Return (JNum (ustr ''-Infinity''), drop 9 s)
                 else Raise JSONDecodeError))"
| "JSONObject 0 depth maxd pairs s = None"
| "JSONObject (Suc n) depth maxd pairs s =
     (case scanstring [] s of
        None \<Rightarrow> Raise JSONDecodeError
      | Some (key, r) \<Rightarrow>
          (case skip_ws r of
             [] \<Rightarrow> Raise JSONDecodeError
           | colon # r1 \<Rightarrow>
               if colon \<noteq> 0x3A then Raise JSONDecodeError
               else
                 (case scan_once n depth maxd (skip_ws r1) of
                    None \<Rightarrow> None
                  | Some (Inl e) \<Rightarrow> Raise e
                  | Some (Inr (v, r2)) \<Rightarrow>
                      (case skip_ws r2 of
                         [] \<Rightarrow> Raise JSONDecodeError
                       | nextchar # r3 \<Rightarrow>
                           if nextchar = 0x7D then Return (JObj (dict_set pairs key v), r3)
                           else if nextchar \<noteq> 0x2C then Raise JSONDecodeError
                           else
                             (case skip_ws r3 of
                                [] \<Rightarrow> Raise JSONDecodeError
                              | q # r4 \<Rightarrow>
                                  if q \<noteq> 0x22 then Raise JSONDecodeError
                                  else JSONObject n depth maxd (dict_set pairs key v) r4)))))"
| "JSONArray 0 depth maxd vals s = None"
| "JSONArray (Suc n) depth maxd vals s =
     (case scan_once n depth maxd s of
        None \<Rightarrow> None
      | Some (Inl e) \<Rightarrow> Raise e
      | Some (Inr (v, r)) \<Rightarrow>
          (case skip_ws r of
             [] \<Rightarrow> Raise JSONDecodeError
           | nextchar # r1 \<Rightarrow>
               if nextchar = 0x5D then Return (JArr (vals @ [v]), r1)
               else if nextchar \<noteq> 0x2C then Raise JSONDecodeError
               else JSONArray n depth maxd (vals @ [v]) (skip_ws r1)))"

text \<open>\<open>json.loads(s)\<close> for a \<open>str\<close>: no byte order mark, one value between optional
  white space, nothing after it.\<close>

definition json_loads :: "interpreter \<Rightarrow> pystr \<Rightarrow> exn + json" where
  "json_loads ip s =
     (if take 1 s = [0xFEFF] then Inl JSONDecodeError
      else
        (case the (scan_once (Suc (Suc (length s + length s))) (recursion_depth ip) (int_max_str_digits ip)
                     (skip_ws s)) of
           Inl e \<Rightarrow> Inl e
         | Inr (v, r) \<Rightarrow> if skip_ws r = [] then Inr v else Inl JSONDecodeError))"


subsection \<open>\<open>json.dumps\<close> of a dictionary of strings\<close>

definition hexdigit :: "nat \<Rightarrow> nat" where
  "hexdigit d = (if d < 10 then 0x30 + d else 0x61 + (d - 10))"

text \<open>\<open>'\\u{0:04x}'.format(n)\<close>.\<close>

definition u_escape :: "nat \<Rightarrow> pystr" where
  "u_escape n =
     [0x5C, 0x75, hexdigit (n div 4096 mod 16), hexdigit (n div 256 mod 16),
      hexdigit (n div 16 mod 16), hexdigit (n mod 16)]"

text \<open>The replacement of one code point in \<open>py_encode_basestring_ascii\<close>: printable
  ASCII but the quote and the backslash stays; the short escapes of \<open>ESCAPE_DCT\<close>;
  \<open>\uXXXX\<close> otherwise, as a surrogate pair above the basic plane.\<close>

definition escape_char :: "nat \<Rightarrow> pystr" where
  "escape_char c =
     (if c = 0x22 then [0x5C, 0x22]
      else if c = 0x5C then [0x5C, 0x5C]
      else if c = 0x0A then [0x5C, 0x6E]
      else if c = 0x0D then [0x5C, 0x72]
      else if c = 0x09 then [0x5C, 0x74]
      else if c = 0x08 then [0x5C, 0x62]
      else if c = 0x0C then [0x5C, 0x66]
      else if 0x20 \<le> c \<and> c \<le> 0x7E then [c]
      else if c < 0x10000 then u_escape c
      else u_escape (0xD800 + (c - 0x10000) div 1024 mod 1024)
           @ u_escape (0xDC00 + (c - 0x10000) mod 1024))"

definition encode_basestring_ascii :: "pystr \<Rightarrow> pystr" where
  "encode_basestring_ascii s = 0x22 # concat (map escape_char s) @ [0x22]"

text \<open>\<open>', '.join(...)\<close>.\<close>

fun join :: "pystr \<Rightarrow> pystr list \<Rightarrow> pystr" where
  "join sep [] = []"
| "join sep [p] = p"
| "join sep (p # q # ps) = p @ sep @ join sep (q # ps)"

text \<open>A command is a Python \<open>dict\<close> from \<open>str\<close> to \<open>str\<close>, as the controller builds it
  (\<open>{'action': 'message', 'content': message}\<close>); \<open>json.dumps\<close> writes its items in
  order with the default separators.\<close>

type_synonym command = "(pystr \<times> pystr) list"

definition dumps_item :: "pystr \<times> pystr \<Rightarrow> pystr" where
  "dumps_item kv = encode_basestring_ascii (fst kv) @ ustr '': '' @ encode_basestring_ascii (snd kv)"

definition json_dumps :: "command \<Rightarrow> pystr" where
  "json_dumps d = 0x7B # join (ustr '', '') (map dumps_item d) @ [0x7D]"

text \<open>The \<open>dict\<close> that \<open>json.loads\<close> is expected to give back for a command.\<close>

definition command_json :: "command \<Rightarrow> json" where
  "command_json d = JObj (map (\<lambda>kv. (fst kv, JStr (snd kv))) d)"

subsection \<open>\<open>str.encode()\<close>: UTF-8\<close>

text \<open>\<open>None\<close> is \<open>UnicodeEncodeError\<close> (a surrogate code point).\<close>

definition utf8_encode_char :: "nat \<Rightarrow> nat list option" where
  "utf8_encode_char c =
     (if c < 0x80 then Some [c]
      else if c < 0x800 then Some [0xC0 + c div 64, 0x80 + c mod 64]
      else if 0xD800 \<le> c \<and> c \<le> 0xDFFF then None
      else if c < 0x10000 then Some [0xE0 + c div 4096, 0x80 + c div 64 mod 64, 0x80 + c mod 64]
      else if c < 0x110000 then
        Some [0xF0 + c div 262144, 0x80 + c div 4096 mod 64, 0x80 + c div 64 mod 64,
              0x80 + c mod 64]
      else None)"

fun utf8_encode :: "pystr \<Rightarrow> nat list option" where
  "utf8_encode [] = Some []"
| "utf8_encode (c # s) =
     (case utf8_encode_char c of
        None \<Rightarrow> None
      | Some bs \<Rightarrow> map_option ((@) bs) (utf8_encode s))"

definition encode :: "pystr \<Rightarrow> bytes option" where
  "encode s = map_option (map char_of) (utf8_encode s)"


section \<open>What the programs do to the outside: events\<close>

text \<open>A network address as \<open>accept\<close> gives it: host and port. A socket is named by a
  number.\<close>

type_synonym address = "pystr \<times> nat"

type_synonym sock = nat

text \<open>The calls \<open>process_command\<close> makes on the machine: \<open>subprocess.run(args,
  check=..., timeout=...)\<close>, \<open>subprocess.run(cmd, shell=True, check=False)\<close>,
  \<open>subprocess.Popen([app], ...)\<close> and the start of the thread that shows a window.\<close>

datatype syscall =
    Subprocess_run "json list" bool "nat option"
  | Subprocess_run_shell json
  | Subprocess_Popen "json list"
  | Thread_start json

text \<open>Every \<open>log_message\<close> call of the two programs, with the values it prints.\<close>

datatype log =
    Received_command json
  | Shutting_down_system
  | Restarting_system
  | Locking_screen
  | Opening_application json
  | Closing_all_user_applications
  | Showing_desktop
  | Taking_screenshot
  | Displaying_message json
  | Executing_command json
  | Unknown_command json
  | Error_executing_command json exn
  | Invalid_JSON_received
  | Connection_to_server_lost
  | Error_receiving_data exn
  | Attempting_to_discover_server
  | Scanning_network pystr
  | Found_server_at pystr
  | Error_during_server_discovery exn
  | No_server_found
  | Connected_to_server pystr nat
  | Error_connecting_to_server exn
  | Starting_command_listener
  | Reconnecting_in nat
  | No_clients_connected
  | Sent_command_to pystr command
  | Removed_disconnected_client pystr
  | Client_disconnected address

datatype event =
    Log log
  | Call syscall
  | Process_command json
  | Recv nat
  | Hostname_I
  | Connect_ex pystr nat rat
  | Close_test_socket
  | Connect pystr nat
  | Close_client_socket
  | Sleep nat
  | Send sock bytes
  | Root_after_update_clients_listbox

text \<open>Events put in front of the result of the rest of a computation.\<close>

definition emit :: "event list \<Rightarrow> event list \<times> 'a \<Rightarrow> event list \<times> 'a" where
  "emit evs r = (evs @ fst r, snd r)"

section \<open>The client: \<open>buddy_client.py\<close>\<close>

subsection \<open>\<open>process_command\<close>\<close>

text \<open>The machine answers a call by returning or by raising.\<close>

type_synonym executor = "syscall \<Rightarrow> exn option"

text \<open>A statement of the \<open>try\<close> body: the events it produced and the exception it
  raised, if any. \<open>then_do\<close> runs a second statement after a first that returned.\<close>

type_synonym outcome = "event list \<times> exn option"

definition then_do :: "outcome \<Rightarrow> outcome \<Rightarrow> outcome" where
  "then_do a b = (case snd a of None \<Rightarrow> (fst a @ fst b, snd b) | Some e \<Rightarrow> a)"

text \<open>
  \<open>log_message\<close> of the client prints the message. Standard output is taken to encode
  as UTF-8 with the error handler \<open>strict\<close> (the default on Ubuntu), so \<open>print\<close> raises
  \<open>UnicodeEncodeError\<close> exactly when the text holds a surrogate code point. An f-string
  inserts a \<open>str\<close> as it is and any other value by its \<open>repr\<close>, which escapes the
  surrogates; the text of an exception is ASCII. \<open>inserted_text\<close> is what a message
  holds of text inserted as it is.
\<close>

definition is_surrogate :: "nat \<Rightarrow> bool" where
  "is_surrogate c = (0xD800 \<le> c \<and> c \<le> 0xDFFF)"

fun inserted :: "json \<Rightarrow> pystr" where
  "inserted (JStr s) = s"
| "inserted v = []"

fun inserted_text :: "log \<Rightarrow> pystr" where
  "inserted_text (Received_command action) = inserted action"
| "inserted_text (Opening_application app) = inserted app"
| "inserted_text (Displaying_message message) = inserted message"
| "inserted_text (Executing_command cmd) = inserted cmd"
| "inserted_text (Unknown_command action) = inserted action"
| "inserted_text (Error_executing_command action e) = inserted action"
| "inserted_text l = []"

definition log_message :: "log \<Rightarrow> outcome" where
  "log_message l =
     (if list_ex is_surrogate (inserted_text l) then ([], Some UnicodeEncodeError)
      else ([Log l], None))"

definition call :: "executor \<Rightarrow> syscall \<Rightarrow> outcome" where
  "call sys c = ([Call c], sys c)"

definition argv :: "string list \<Rightarrow> json list" where
  "argv ws = map (\<lambda>w. JStr (ustr w)) ws"

text \<open>
  The truth value of a decoded JSON value (\<open>if cmd:\<close>). A number is false when it is
  zero. The lexeme of a number stands for \<open>m * 10 ^ scale\<close>, where \<open>m\<close> is made of the
  digits before the exponent and \<open>scale\<close> is the exponent less the number of digits of
  the fraction. \<open>int\<close> is exact; \<open>float\<close> rounds to the nearest double, ties to even,
  so it gives zero exactly when the value is at most \<open>2 ^ -1075\<close>, half of the
  smallest positive double. \<open>NaN\<close> and the infinities are true.
\<close>

definition digits_value :: "pystr \<Rightarrow> nat" where
  "digits_value ds = foldl (\<lambda>n c. 10 * n + (c - 0x30)) 0 (filter is_digit ds)"

definition mantissa :: "pystr \<Rightarrow> nat" where
  "mantissa lexeme = digits_value (takeWhile (\<lambda>c. c \<noteq> 0x65 \<and> c \<noteq> 0x45) lexeme)"

definition exponent :: "pystr \<Rightarrow> int" where
  "exponent lexeme =
     (let e = drop 1 (dropWhile (\<lambda>c. c \<noteq> 0x65 \<and> c \<noteq> 0x45) lexeme)
      in if take 1 e = [0x2D] then - int (digits_value e) else int (digits_value e))"

definition scale :: "pystr \<Rightarrow> int" where
  "scale lexeme =
     exponent lexeme
     - int (length (filter is_digit
              (dropWhile (\<lambda>c. c \<noteq> 0x2E) (takeWhile (\<lambda>c. c \<noteq> 0x65 \<and> c \<noteq> 0x45) lexeme))))"

definition number_is_zero :: "pystr \<Rightarrow> bool" where
  "number_is_zero lexeme =
     (list_ex is_digit lexeme \<and> mantissa lexeme * 2 ^ 1075 \<le> 10 ^ nat (- scale lexeme))"

fun truthy :: "json \<Rightarrow> bool" where
  "truthy JNull = False"
| "truthy (JBool b) = b"
| "truthy (JNum lexeme) = (\<not> number_is_zero lexeme)"
| "truthy (JStr s) = (s \<noteq> [])"
| "truthy (JArr vs) = (vs \<noteq> [])"
| "truthy (JObj d) = (d \<noteq> [])"

text \<open>The \<open>lock\<close> branch: the first lock command that succeeds ends the loop; the three
  exceptions of the inner \<open>except\<close> go on to the next command, any other leaves the
  loop.\<close>

definition lock_commands :: "json list list" where
  "lock_commands =
     [argv [''gnome-screensaver-command'', ''--lock''],
      argv [''xdg-screensaver'', ''lock''],
      argv [''loginctl'', ''lock-session''],
      argv [''dm-tool'', ''lock'']]"

fun try_lock :: "executor \<Rightarrow> json list list \<Rightarrow> outcome" where
  "try_lock sys [] = ([], None)"
| "try_lock sys (cmd # cmds) =
     (case sys (Subprocess_run cmd True (Some 5)) of
        None \<Rightarrow> ([Call (Subprocess_run cmd True (Some 5))], None)
      | Some e \<Rightarrow>
          if e = CalledProcessError \<or> e = TimeoutExpired \<or> e = OSError FileNotFoundError
          then then_do ([Call (Subprocess_run cmd True (Some 5))], None) (try_lock sys cmds)
          else ([Call (Subprocess_run cmd True (Some 5))], Some e))"

text \<open>The \<open>close_apps\<close> branch: the loop over the applications is inside a \<open>try\<close> whose
  bare \<open>except\<close> passes, so the first exception ends the loop silently.\<close>

definition apps_to_close :: "string list" where
  "apps_to_close = [''firefox'', ''chromium'', ''libreoffice'', ''gedit'', ''nautilus'']"

fun close_apps :: "executor \<Rightarrow> string list \<Rightarrow> event list" where
  "close_apps sys [] = []"
| "close_apps sys (app # apps) =
     Call (Subprocess_run (argv [''pkill'', ''-f'', app]) False None)
     # (case sys (Subprocess_run (argv [''pkill'', ''-f'', app]) False None) of
          None \<Rightarrow> close_apps sys apps
        | Some e \<Rightarrow> [])"

text \<open>\<open>show_message\<close>: the window thread is started, then \<open>notify-send\<close> is tried with
  every exception passed over.\<close>

definition show_message :: "executor \<Rightarrow> json \<Rightarrow> outcome" where
  "show_message sys message =
     then_do (log_message (Displaying_message message))
       (then_do (call sys (Thread_start message))
          ([Call (Subprocess_run
                    [JStr (ustr ''notify-send''), JStr (ustr ''Buddy System''), message]
                    False None)], None))"

text \<open>The body of the \<open>try\<close> of \<open>process_command\<close>, branch by branch; \<open>now\<close> is the time
  stamp \<open>datetime.now().strftime("%Y%m%d_%H%M%S")\<close>.\<close>

definition execute_action :: "executor \<Rightarrow> pystr \<Rightarrow> (pystr \<times> json) list \<Rightarrow> json \<Rightarrow> outcome" where
  "execute_action sys now command action =
     (if action = JStr (ustr ''ping'') then ([], None)
      else if action = JStr (ustr ''shutdown'') then
        then_do (log_message Shutting_down_system)
          (call sys (Subprocess_run (argv [''sudo'', ''shutdown'', ''-h'', ''now'']) False None))
      else if action = JStr (ustr ''restart'') then
        then_do (log_message Restarting_system)
          (call sys (Subprocess_run (argv [''sudo'', ''reboot'']) False None))
      else if action = JStr (ustr ''lock'') then
        then_do (log_message Locking_screen) (try_lock sys lock_commands)
      else if action = JStr (ustr ''open_app'') then
        (let app = dict_get command (ustr ''app'') (JStr [])
         in then_do (log_message (Opening_application app)) (call sys (Subprocess_Popen [app])))
      else if action = JStr (ustr ''close_apps'') then
        then_do (log_message Closing_all_user_applications) (close_apps sys apps_to_close, None)
      else if action = JStr (ustr ''show_desktop'') then
        then_do (log_message Showing_desktop)
          (case sys (Subprocess_run (argv [''wmctrl'', ''-k'', ''on'']) False None) of
             None \<Rightarrow> ([Call (Subprocess_run (argv [''wmctrl'', ''-k'', ''on'']) False None)], None)
           | Some e \<Rightarrow>
               then_do ([Call (Subprocess_run (argv [''wmctrl'', ''-k'', ''on'']) False None)], None)
                 (call sys (Subprocess_run (argv [''xdotool'', ''key'', ''Super+d'']) False None)))
      else if action = JStr (ustr ''screenshot'') then
        then_do (log_message Taking_screenshot)
          (call sys
             (Subprocess_run
                [JStr (ustr ''gnome-screenshot''), JStr (ustr ''-f''),
                 JStr (ustr ''/tmp/buddy_screenshot_'' @ now @ ustr ''.png'')]
                False None))
      else if action = JStr (ustr ''message'') then
        show_message sys
          (dict_get command (ustr ''content'') (JStr (ustr ''Message from administrator'')))
      else if action = JStr (ustr ''execute_command'') then
        (let cmd = dict_get command (ustr ''command'') (JStr [])
         in if truthy cmd
            then then_do (log_message (Executing_command cmd)) (call sys (Subprocess_run_shell cmd))
            else ([], None))
      else log_message (Unknown_command action))"

text \<open>The \<open>except Exception as e\<close> of \<open>process_command\<close>: an exception of the body is
  logged.\<close>

definition handled :: "json \<Rightarrow> outcome \<Rightarrow> outcome" where
  "handled action body =
     (case snd body of
        None \<Rightarrow> body
      | Some e \<Rightarrow> then_do (fst body, None) (log_message (Error_executing_command action e)))"

text \<open>\<open>process_command\<close>: the first two statements are outside the \<open>try\<close>.
  \<open>command.get\<close> exists on a \<open>dict\<close> only, and an exception of the first
  \<open>log_message\<close> leaves the function.\<close>

definition process_command :: "executor \<Rightarrow> pystr \<Rightarrow> json \<Rightarrow> outcome" where
  "process_command sys now command =
     (case command of
        JObj d \<Rightarrow>
          (let action = dict_get d (ustr ''action'') (JStr [])
           in then_do (log_message (Received_command action))
                (handled action (execute_action sys now d action)))
      | _ \<Rightarrow> ([], Some AttributeError))"

subsection \<open>\<open>listen_for_commands\<close>\<close>

lemma split1_shorter: "NL \<in> set buffer \<Longrightarrow> length (snd (split1 buffer)) < length buffer"
proof -
  assume "NL \<in> set buffer"
  then have "dropWhile (\<lambda>c. c \<noteq> NL) buffer \<noteq> []"
    by (simp add: dropWhile_eq_Nil_conv)
  then have "length (tl (dropWhile (\<lambda>c. c \<noteq> NL) buffer)) < length (dropWhile (\<lambda>c. c \<noteq> NL) buffer)"
    by simp
  also have "\<dots> \<le> length buffer"
    by (rule length_dropWhile_le)
  finally show ?thesis
    by (simp add: split1_def)
qed

text \<open>The body of the inner loop for one line: a line that is blank after \<open>strip\<close> is
  passed over; \<open>JSONDecodeError\<close> is logged; any other exception of \<open>json.loads\<close> or of
  \<open>process_command\<close> is not caught here.\<close>

definition process_line :: "interpreter \<Rightarrow> executor \<Rightarrow> pystr \<Rightarrow> pystr \<Rightarrow> outcome" where
  "process_line ip sys now line =
     (if strip line \<noteq> [] then
        (case json_loads ip (strip line) of
           Inr command \<Rightarrow> emit [Process_command command] (process_command sys now command)
         | Inl e \<Rightarrow>
             if e = JSONDecodeError then ([Log Invalid_JSON_received], None)
             else ([], Some e))
      else ([], None))"

text \<open>The inner loop \<open>while '\n' in buffer\<close>: the events so far, the buffer; the result
  is the events, the buffer that is left and the exception that left the loop, if
  any.\<close>

function process_buffer ::
  "interpreter \<Rightarrow> executor \<Rightarrow> pystr \<Rightarrow> event list \<Rightarrow> pystr
     \<Rightarrow> event list \<times> pystr \<times> exn option" where
  "process_buffer ip sys now evs buffer =
     (if NL \<in> set buffer then
        (case snd (process_line ip sys now (fst (split1 buffer))) of
           None \<Rightarrow>
             process_buffer ip sys now
               (evs @ fst (process_line ip sys now (fst (split1 buffer))))
               (snd (split1 buffer))
         | Some e \<Rightarrow>
             (evs @ fst (process_line ip sys now (fst (split1 buffer))),
              snd (split1 buffer), Some e))
      else (evs, buffer, None))"
  by pat_completeness auto
termination
  by (relation "measure (\<lambda>(ip, sys, now, evs, buffer). length buffer)")
     (auto simp: split1_shorter)

declare process_buffer.simps [simp del]

text \<open>What one \<open>recv(1024)\<close> gives: data (at most 1024 bytes; none when the peer has
  closed the connection) or an \<open>OSError\<close>.\<close>

datatype recv = Data bytes | Recv_raises os_kind

text \<open>The two handlers of the outer \<open>try\<close>.\<close>

definition receive_handler :: "exn \<Rightarrow> event" where
  "receive_handler e =
     (if is_OSError e then Log Connection_to_server_lost else Log (Error_receiving_data e))"

text \<open>The outer loop, over the results of the successive \<open>recv\<close> calls; after the last
  of them the peer has closed the connection. \<open>running\<close> is \<open>self.running\<close>, which
  nothing in the loop changes.\<close>

fun listen_loop ::
  "interpreter \<Rightarrow> executor \<Rightarrow> pystr \<Rightarrow> bool \<Rightarrow> pystr \<Rightarrow> recv list \<Rightarrow> event list" where
  "listen_loop ip sys now running buffer [] = (if running then [Recv 1024] else [])"
| "listen_loop ip sys now running buffer (Recv_raises k # reads) =
     (if running then [Recv 1024, receive_handler (OSError k)] else [])"
| "listen_loop ip sys now running buffer (Data bs # reads) =
     (if running then
        (case decode bs of
           None \<Rightarrow> [Recv 1024, receive_handler UnicodeDecodeError]
         | Some data \<Rightarrow>
             if data = [] then [Recv 1024]
             else
               (case process_buffer ip sys now [] (buffer @ data) of
                  (evs, buffer', None) \<Rightarrow>
                    Recv 1024 # evs @ listen_loop ip sys now running buffer' reads
                | (evs, buffer', Some e) \<Rightarrow> Recv 1024 # evs @ [receive_handler e]))
      else [])"

definition listen_for_commands ::
  "interpreter \<Rightarrow> executor \<Rightarrow> pystr \<Rightarrow> bool \<Rightarrow> recv list \<Rightarrow> event list" where
  "listen_for_commands ip sys now running reads = listen_loop ip sys now running [] reads"

subsection \<open>\<open>discover_server\<close>\<close>



text \<open>\<open>s.split(sep)\<close> for a one-character separator, and \<open>s.strip().split()[0]\<close>: the
  first word of \<open>s\<close>, \<open>None\<close> standing for the \<open>IndexError\<close> of an empty list.\<close>

fun split_on :: "nat \<Rightarrow> pystr \<Rightarrow> pystr list" where
  "split_on sep [] = [[]]"
| "split_on sep (c # s) =
     (if c = sep then [] # split_on sep s
      else (case split_on sep s of
              p # ps \<Rightarrow> (c # p) # ps
            | [] \<Rightarrow> [[c]]))"


text \<open>The network as one connection attempt meets it: what \<open>hostname -I\<close> prints (or
  the exception of \<open>subprocess.run\<close>), what a probe of an address gives (the result of
  \<open>connect_ex\<close>, or an exception of the probe), what \<open>connect\<close> to an address raises.\<close>

record network =
  hostname_I :: "exn + pystr"
  probe :: "pystr \<Rightarrow> exn + int"
  connect :: "pystr \<Rightarrow> exn option"




subsection \<open>\<open>connect_to_server\<close>, \<open>run\<close>, \<open>stop\<close>\<close>

text \<open>The fields of \<open>BuddyClient\<close> that the connection loop uses; \<open>client_socket\<close> is
  \<open>None\<close> or a socket object.\<close>

record client =
  server_ip :: "pystr option"
  server_port :: nat
  client_socket :: "unit option"
  running :: bool
  reconnect_delay :: nat





text \<open>\<open>stop\<close> is called by another thread of control. A session says when, if at all,
  during one turn of the loop of \<open>run\<close>: while \<open>connect_to_server\<close> runs (it takes effect
  before the listener tests the flag), while the listener runs (it takes effect when
  the listener has returned), or during the sleep.\<close>

datatype stop_point = While_connecting | While_listening | While_sleeping

record session =
  net :: network
  reads :: "recv list"
  stop_requested :: "stop_point option"





section \<open>The server: \<open>buddy_server.py\<close>\<close>

text \<open>\<open>self.clients\<close>: the dictionary from address to socket, in insertion order.\<close>

type_synonym registry = "(address \<times> sock) list"

text \<open>\<open>if k in d: del d[k]\<close>.\<close>

definition dict_del :: "('k \<times> 'v) list \<Rightarrow> 'k \<Rightarrow> ('k \<times> 'v) list" where
  "dict_del d k = filter (\<lambda>kv. fst kv \<noteq> k) d"

text \<open>\<open>command_str.encode() + b'\n'\<close>; \<open>None\<close> is \<open>UnicodeEncodeError\<close>.\<close>

definition wire_line :: "pystr \<Rightarrow> bytes option" where
  "wire_line command_str = map_option (\<lambda>data. data @ [CHR 0x0A]) (encode command_str)"

subsection \<open>\<open>handle_client\<close>\<close>

text \<open>How the loop of a heartbeat thread ended, as far as it was observed.\<close>

datatype loop_status = Still_looping | Terminated | Raised exn

text \<open>One entry of the script for each turn of \<open>while self.running\<close>: the value of the
  flag when it is tested and what \<open>send\<close> does. A failed \<open>send\<close> skips the sleep, logs,
  removes the address from the registry and leaves the loop.\<close>

fun handle_client ::
  "sock \<Rightarrow> address \<Rightarrow> (bool \<times> os_kind option) list \<Rightarrow> registry
     \<Rightarrow> event list \<times> registry \<times> loop_status" where
  "handle_client client_sock address [] clients = ([], clients, Still_looping)"
| "handle_client client_sock address ((is_running, outcome) # script) clients =
     (if \<not> is_running then ([], clients, Terminated)
      else
        (case wire_line (json_dumps [(ustr ''action'', ustr ''ping'')]) of
           None \<Rightarrow> ([], clients, Raised UnicodeEncodeError)
         | Some data \<Rightarrow>
             (case outcome of
                None \<Rightarrow>
                  emit [Send client_sock data, Sleep 10]
                    (handle_client client_sock address script clients)
              | Some k \<Rightarrow>
                  ([Send client_sock data, Log (Client_disconnected address),
                    Root_after_update_clients_listbox],
                   dict_del clients address, Terminated))))"

subsection \<open>\<open>send_command\<close>\<close>

text \<open>
  \<open>log_message\<close> of the server writes the message to the text widget of the window and
  to standard output; \<open>logs\<close> says what it raises for a message, if anything.
\<close>

type_synonym logger = "log \<Rightarrow> exn option"

text \<open>
  \<open>send_command\<close> runs in the thread of the window while the heartbeat threads run
  \<open>handle_client\<close>, and it works on \<open>self.clients\<close> itself, not on a copy: a heartbeat
  thread whose write fails deletes its address from the same dictionary. A schedule
  says which addresses the heartbeat threads delete and when: during each turn of the
  fan-out loop, and, for each address of \<open>disconnected_clients\<close>, before the test
  \<open>addr in self.clients\<close> and between that test and the \<open>del\<close>. (The insertions of the
  accept thread are left out of a schedule.)
\<close>

record schedule =
  during_turn :: "address list list"
  before_test :: "address list list"
  before_del :: "address list list"

definition no_interference :: schedule where
  "no_interference = \<lparr>during_turn = [], before_test = [], before_del = []\<rparr>"

definition next_of :: "'a list list \<Rightarrow> 'a list" where
  "next_of xs = (case xs of [] \<Rightarrow> [] | x # rest \<Rightarrow> x)"

text \<open>\<open>if address in self.clients: del self.clients[address]\<close>, in the threads of the
  given addresses.\<close>

definition deleted_by :: "address list \<Rightarrow> registry \<Rightarrow> registry" where
  "deleted_by addrs live = filter (\<lambda>item. fst item \<notin> set addrs) live"

text \<open>
  The loop \<open>for address, client_socket in self.clients.items()\<close>. Every step of the
  iterator of a dictionary, also the step that finds the end, raises \<open>RuntimeError\<close>
  when the size of the dictionary is not the size it had when the loop began. \<open>used\<close>
  is that size, \<open>items\<close> what the iterator has still to give, \<open>live\<close> the dictionary as
  it is now. In a turn, \<open>command_str.encode() + b'\n'\<close> is written to the socket and the
  write is logged; an exception of the \<open>OSError\<close> family, from the write or from the
  log, puts the address on \<open>disconnected_clients\<close>, any other leaves the function. The
  result is the events, \<open>disconnected_clients\<close>, the dictionary, and the exception that
  left the loop, if any.
\<close>

fun fan_out ::
  "logger \<Rightarrow> (sock \<Rightarrow> os_kind option) \<Rightarrow> pystr \<Rightarrow> command \<Rightarrow> nat \<Rightarrow> registry
     \<Rightarrow> address list list \<Rightarrow> registry \<Rightarrow> event list \<times> address list \<times> registry \<times> exn option"
where
  "fan_out logs send command_str command used [] turns live =
     ([], [], live, if length live = used then None else Some RuntimeError)"
| "fan_out logs send command_str command used ((address, client_sock) # items) turns live =
     (if length live \<noteq> used then ([], [], live, Some RuntimeError)
      else
        (case wire_line command_str of
           None \<Rightarrow> ([], [], live, Some UnicodeEncodeError)
         | Some data \<Rightarrow>
             (case send client_sock of
                Some k \<Rightarrow>
                  (case fan_out logs send command_str command used items (tl turns)
                          (deleted_by (next_of turns) live) of
                     (evs, disconnected_clients, r) \<Rightarrow>
                       (Send client_sock data # evs, address # disconnected_clients, r))
              | None \<Rightarrow>
                  (case logs (Sent_command_to (fst address) command) of
                     None \<Rightarrow>
                       (case fan_out logs send command_str command used items (tl turns)
                               (deleted_by (next_of turns) live) of
                          (evs, r) \<Rightarrow>
                            (Send client_sock data
                             # Log (Sent_command_to (fst address) command) # evs, r))
                   | Some e \<Rightarrow>
                       if is_OSError e then
                         (case fan_out logs send command_str command used items (tl turns)
                                 (deleted_by (next_of turns) live) of
                            (evs, disconnected_clients, r) \<Rightarrow>
                              (Send client_sock data # evs, address # disconnected_clients, r))
                       else
                         ([Send client_sock data], [], deleted_by (next_of turns) live,
                          Some e)))))"

text \<open>The loop that removes the disconnected clients: the events, the dictionary and
  the exception that left the loop, if any. A \<open>del\<close> of a key that has gone since the
  test raises \<open>KeyError\<close>.\<close>

fun remove_disconnected ::
  "logger \<Rightarrow> address list \<Rightarrow> address list list \<Rightarrow> address list list \<Rightarrow> registry
     \<Rightarrow> event list \<times> registry \<times> exn option"
where
  "remove_disconnected logs [] tests dels live = ([], live, None)"
| "remove_disconnected logs (addr # addrs) tests dels live =
     (if addr \<in> fst ` set (deleted_by (next_of tests) live) then
        (if addr \<notin> fst ` set (deleted_by (next_of dels) (deleted_by (next_of tests) live))
         then ([], deleted_by (next_of dels) (deleted_by (next_of tests) live), Some KeyError)
         else
           (case logs (Removed_disconnected_client (fst addr)) of
              Some e \<Rightarrow>
                ([], dict_del (deleted_by (next_of dels) (deleted_by (next_of tests) live)) addr,
                 Some e)
            | None \<Rightarrow>
                emit [Log (Removed_disconnected_client (fst addr))]
                  (remove_disconnected logs addrs (tl tests) (tl dels)
                     (dict_del (deleted_by (next_of dels) (deleted_by (next_of tests) live))
                        addr))))
      else remove_disconnected logs addrs (tl tests) (tl dels)
             (deleted_by (next_of tests) live))"

text \<open>\<open>send_command\<close>: the events, the registry afterwards and the exception that
  leaves the function, if any.\<close>

definition send_command ::
  "logger \<Rightarrow> (sock \<Rightarrow> os_kind option) \<Rightarrow> schedule \<Rightarrow> registry \<Rightarrow> command
     \<Rightarrow> event list \<times> registry \<times> exn option" where
  "send_command logs send sched clients command =
     (if clients = [] then
        (case logs No_clients_connected of
           None \<Rightarrow> ([Log No_clients_connected], clients, None)
         | Some e \<Rightarrow> ([], clients, Some e))
      else
        (case fan_out logs send (json_dumps command) command (length clients) clients
                (during_turn sched) clients of
           (evs, disconnected_clients, live, Some e) \<Rightarrow> (evs, live, Some e)
         | (evs, disconnected_clients, live, None) \<Rightarrow>
             (case remove_disconnected logs disconnected_clients (before_test sched)
                     (before_del sched) live of
                (evs2, live2, Some e) \<Rightarrow> (evs @ evs2, live2, Some e)
              | (evs2, live2, None) \<Rightarrow>
                  (evs @ evs2
                   @ (if disconnected_clients \<noteq> [] then [Root_after_update_clients_listbox]
                      else []),
                   live2, None))))"

section \<open>Reading a trace\<close>

text \<open>The writes to sockets, the probes and the commands handed to \<open>process_command\<close>
  that a trace holds, in order.\<close>

fun sends :: "event list \<Rightarrow> (sock \<times> bytes) list" where
  "sends [] = []"
| "sends (Send s data # evs) = (s, data) # sends evs"
| "sends (ev # evs) = sends evs"

fun probes :: "event list \<Rightarrow> (pystr \<times> nat \<times> rat) list" where
  "probes [] = []"
| "probes (Connect_ex ip port timeout # evs) = (ip, port, timeout) # probes evs"
| "probes (ev # evs) = probes evs"

fun decoded :: "event list \<Rightarrow> json list" where
  "decoded [] = []"
| "decoded (Process_command command # evs) = command # decoded evs"
| "decoded (ev # evs) = decoded evs"

text \<open>The lines of a buffer that have their terminator, in order.\<close>

definition complete_lines :: "pystr \<Rightarrow> pystr list" where
  "complete_lines buffer = butlast (split_on NL buffer)"

text \<open>The addresses of the registry whose write fails.\<close>

definition failed_addresses :: "(sock \<Rightarrow> os_kind option) \<Rightarrow> registry \<Rightarrow> address list" where
  "failed_addresses send clients = map fst (filter (\<lambda>item. send (snd item) \<noteq> None) clients)"

text \<open>A Python \<open>str\<close> holds code points below \<open>0x110000\<close>. It has a surrogate pair
  where a high surrogate is directly followed by a low surrogate.\<close>

definition python_text :: "pystr \<Rightarrow> bool" where
  "python_text s = list_all (\<lambda>c. c < 0x110000) s"

fun no_surrogate_pair :: "pystr \<Rightarrow> bool" where
  "no_surrogate_pair (a # b # s) =
     (\<not> (0xD800 \<le> a \<and> a \<le> 0xDBFF \<and> 0xDC00 \<le> b \<and> b \<le> 0xDFFF) \<and> no_surrogate_pair (b # s))"
| "no_surrogate_pair s = True"

text \<open>An item of a command whose key and value are such texts without a surrogate
  pair.\<close>

definition member_ok :: "pystr \<times> pystr \<Rightarrow> bool" where
  "member_ok kv =
     (python_text (fst kv) \<and> no_surrogate_pair (fst kv)
      \<and> python_text (snd kv) \<and> no_surrogate_pair (snd kv))"

text \<open>What the decoder has to find after the escape of a high surrogate in order not
  to join it with what follows: no \<open>u\<close> escape, or the escape of something that is not a
  low surrogate.\<close>

definition not_joined :: "pystr \<Rightarrow> bool" where
  "not_joined t =
     (take 2 t \<noteq> [0x5C, 0x75]
      \<or> (\<exists>uni2 s3. decode_uXXXX (drop 2 t) = Some (uni2, s3)
                     \<and> \<not> (0xDC00 \<le> uni2 \<and> uni2 \<le> 0xDFFF)))"

text \<open>The actions the client recognises.\<close>

definition recognized_actions :: "json list" where
  "recognized_actions =
     map (\<lambda>a. JStr (ustr a))
       [''ping'', ''shutdown'', ''restart'', ''lock'', ''open_app'', ''close_apps'',
        ''show_desktop'', ''screenshot'', ''message'', ''execute_command'']"

section \<open>Evaluating the model on concrete inputs\<close>

lemmas eval_rules =
  json_loads_def ustr_def skip_ws_def json_ws_def starts_with_def match_number_def
  match_int_def match_frac_def match_exp_def is_digit_def strip_def py_isspace_def split1_def
  NL_def process_command_def execute_action_def dict_get_def then_do_def log_message_def
  call_def decode_def cont_in_def listen_for_commands_def receive_handler_def backslash_def
  decode_uXXXX_def hexval_def process_buffer.simps int_too_long_def handled_def
  is_surrogate_def Let_def process_line_def emit_def

section \<open>The scanner has enough fuel\<close>

lemma skip_ws_le: "length (skip_ws s) \<le> length s"
  by (simp add: skip_ws_def length_dropWhile_le)

lemma skip_ws_Cons_le: "skip_ws s = c # r \<Longrightarrow> Suc (length r) \<le> length s"
  using skip_ws_le[of s] by simp

lemma scanstring_shorter: "scanstring acc s = Some (v, r) \<Longrightarrow> length r < length s"
proof (induction acc s arbitrary: v r rule: scanstring.induct)
  case (1 acc)
  then show ?case by simp
next
  case (2 acc c s)
  show ?case
  proof (cases "c = 0x22")
    case True
    with "2.prems" show ?thesis by simp
  next
    case nq: False
    show ?thesis
    proof (cases "c = 0x5C")
      case False
      with nq "2.prems" "2.IH"(5) show ?thesis
        by (fastforce split: if_splits)
    next
      case bs: True
      show ?thesis
      proof (cases s)
        case Nil
        with nq bs "2.prems" show ?thesis by simp
      next
        case (Cons e s1)
        show ?thesis
        proof (cases "e = 0x75")
          case False
          with nq bs Cons "2.prems" "2.IH"(4)[OF nq bs Cons False] show ?thesis
            by (fastforce split: option.splits)
        next
          case u: True
          from nq bs Cons u "2.prems" obtain uni s2 where d: "decode_uXXXX s1 = Some (uni, s2)"
            by (auto split: option.splits)
          from d have l2: "length s2 < length s1" by (rule decode_uXXXX_shorter)
          show ?thesis
          proof (cases "0xD800 \<le> uni \<and> uni \<le> 0xDBFF \<and> take 2 s2 = [0x5C, 0x75]")
            case False
            with nq bs Cons u d "2.prems" have "scanstring (acc @ [uni]) s2 = Some (v, r)"
              by (auto split: if_splits)
            from "2.IH"(3)[OF nq bs Cons u d refl False this] l2 Cons show ?thesis
              by auto
          next
            case hi: True
            from nq bs Cons u d hi "2.prems" obtain uni2 s3
              where d2: "decode_uXXXX (drop 2 s2) = Some (uni2, s3)"
              by (auto split: option.splits)
            from d2 have l3: "length s3 < length (drop 2 s2)" by (rule decode_uXXXX_shorter)
            show ?thesis
            proof (cases "0xDC00 \<le> uni2 \<and> uni2 \<le> 0xDFFF")
              case True
              with nq bs Cons u d hi d2 "2.prems"
              have "scanstring (acc @ [0x10000 + ((uni - 0xD800) * 1024 + (uni2 - 0xDC00))]) s3
                 = Some (v, r)" by auto
              from "2.IH"(1)[OF nq bs Cons u d refl hi d2 refl True this]
              show ?thesis using l2 l3 Cons by auto
            next
              case False
              with nq bs Cons u d hi d2 "2.prems"
              have "scanstring (acc @ [uni]) s2 = Some (v, r)" by auto
              from "2.IH"(2)[OF nq bs Cons u d refl hi d2 refl False this]
              show ?thesis using l2 Cons by auto
            qed
          qed
        qed
      qed
    qed
  qed
qed

lemma match_int_shorter: "match_int s = Some (lx, r) \<Longrightarrow> length r < length s"
proof -
  assume a: "match_int s = Some (lx, r)"
  have d: "length (dropWhile is_digit t) \<le> length t" for t :: pystr
    by (rule length_dropWhile_le)
  show ?thesis
  proof (cases "take 1 s = [0x2D]")
    case True
    then obtain t where s: "s = 0x2D # t" by (cases s) auto
    with a d[of "tl t"] show ?thesis
      by (cases t) (auto simp: match_int_def split: if_splits)
  next
    case False
    with a d[of "tl s"] show ?thesis
      by (cases s) (auto simp: match_int_def split: if_splits)
  qed
qed

lemma match_frac_le: "length (snd (match_frac s)) \<le> length s"
  using length_dropWhile_le[of is_digit "drop 2 s"]
  by (auto simp: match_frac_def split: list.splits)

lemma match_exp_le: "length (snd (match_exp s)) \<le> length s"
proof (cases s)
  case Nil
  then show ?thesis by (simp add: match_exp_def)
next
  case (Cons e r)
  have d: "length (dropWhile is_digit t) \<le> length t" for t :: pystr
    by (rule length_dropWhile_le)
  from Cons d[of r] d[of "drop 1 r"] show ?thesis
    by (auto simp: match_exp_def Let_def split: if_splits)
qed

lemma match_number_shorter: "match_number s = Some (lx, r) \<Longrightarrow> length r < length s"
proof -
  assume a: "match_number s = Some (lx, r)"
  then obtain i r0 where i: "match_int s = Some (i, r0)"
    by (auto simp: match_number_def split: option.splits)
  with a have "r = snd (match_exp (snd (match_frac r0)))"
    by (auto simp: match_number_def Let_def split: prod.splits)
  with match_exp_le[of "snd (match_frac r0)"] match_frac_le[of r0] match_int_shorter[OF i]
  show ?thesis by simp
qed


lemma scan_fuel:
  "(2 * length s < n \<longrightarrow> scan_once n depth maxd s \<noteq> None)
   \<and> (\<forall>v r. scan_once n depth maxd s = Return (v, r) \<longrightarrow> length r < length s)"
  "(2 * length s0 < n \<longrightarrow> JSONObject n depth maxd pairs s0 \<noteq> None)
   \<and> (\<forall>v r. JSONObject n depth maxd pairs s0 = Return (v, r) \<longrightarrow> length r < length s0)"
  "(2 * length s1 + 1 < n \<longrightarrow> JSONArray n depth maxd vals s1 \<noteq> None)
   \<and> (\<forall>v r. JSONArray n depth maxd vals s1 = Return (v, r) \<longrightarrow> length r < length s1)"
proof (induction n depth maxd s and n depth maxd pairs s0 and n depth maxd vals s1
    rule: scan_once_JSONObject_JSONArray.induct)
  case (1 depth maxd s)
  show ?case by simp
next
  case (2 n depth maxd s)
  show ?case
  proof (cases s)
    case Nil
    then show ?thesis by simp
  next
    case (Cons c r)
    consider (str) "c = 0x22" | (obj) "c \<noteq> 0x22" "c = 0x7B" | (arr) "c \<noteq> 0x22" "c \<noteq> 0x7B" "c = 0x5B"
      | (other) "c \<noteq> 0x22" "c \<noteq> 0x7B" "c \<noteq> 0x5B" by blast
    then show ?thesis
    proof cases
      case str
      with Cons show ?thesis
        by (auto split: option.splits dest: scanstring_shorter)
    next
      case obj
      show ?thesis
      proof (cases depth)
        case 0
        with Cons obj show ?thesis by simp
      next
        case (Suc inner)
        show ?thesis
        proof (cases "skip_ws r")
          case Nil
          with Cons obj Suc show ?thesis by simp
        next
          case (Cons d r1)
          note sk = Cons
          from skip_ws_Cons_le[OF sk] have l: "Suc (length r1) \<le> length r" .
          show ?thesis
          proof (cases "d = 0x7D")
            case True
            with \<open>s = c # r\<close> obj Suc sk l show ?thesis by auto
          next
            case nc: False
            show ?thesis
            proof (cases "d = 0x22")
              case False
              with \<open>s = c # r\<close> obj Suc sk nc show ?thesis by simp
            next
              case True
              from "2.IH"(1)[OF \<open>s = c # r\<close> obj(1) obj(2) Suc sk nc True]
              have ih: "(2 * length r1 < n \<longrightarrow> JSONObject n inner maxd [] r1 \<noteq> None)
                 \<and> (\<forall>v r'. JSONObject n inner maxd [] r1 = Return (v, r') \<longrightarrow> length r' < length r1)" .
              have e: "scan_once (Suc n) depth maxd s = JSONObject n inner maxd [] r1"
                using \<open>s = c # r\<close> obj Suc sk nc True by simp
              from ih l \<open>s = c # r\<close> show ?thesis
                unfolding e by fastforce
            qed
          qed
        qed
      qed
    next
      case arr
      show ?thesis
      proof (cases depth)
        case 0
        with Cons arr show ?thesis by simp
      next
        case (Suc inner)
        show ?thesis
        proof (cases "skip_ws r")
          case Nil
          with Cons arr Suc show ?thesis by simp
        next
          case (Cons d r1)
          note sk = Cons
          from skip_ws_Cons_le[OF sk] have l: "Suc (length r1) \<le> length r" .
          show ?thesis
          proof (cases "d = 0x5D")
            case True
            with \<open>s = c # r\<close> arr Suc sk l show ?thesis by auto
          next
            case nc: False
            from "2.IH"(2)[OF \<open>s = c # r\<close> arr(1) arr(2) arr(3) Suc sk nc]
            have ih: "(2 * length (d # r1) + 1 < n \<longrightarrow> JSONArray n inner maxd [] (d # r1) \<noteq> None)
               \<and> (\<forall>v r'. JSONArray n inner maxd [] (d # r1) = Return (v, r')
                     \<longrightarrow> length r' < length (d # r1))" .
            have e: "scan_once (Suc n) depth maxd s = JSONArray n inner maxd [] (d # r1)"
              using \<open>s = c # r\<close> arr Suc sk nc by simp
            from ih l \<open>s = c # r\<close> show ?thesis
              unfolding e by fastforce
          qed
        qed
      qed
    next
      case other
      with Cons show ?thesis
        by (auto split: option.splits dest: match_number_shorter)
    qed
  qed
next
  case (3 depth maxd pairs s0)
  show ?case by simp
next
  case (4 n depth maxd pairs s0)
  show ?case
  proof (cases "scanstring [] s0")
    case None
    then show ?thesis by simp
  next
    case (Some kr)
    obtain key r where kr: "kr = (key, r)" by (cases kr)
    from Some kr have ss: "scanstring [] s0 = Some (key, r)" by simp
    from scanstring_shorter[OF ss] have lr: "length r < length s0" .
    show ?thesis
    proof (cases "skip_ws r")
      case Nil
      with ss show ?thesis by simp
    next
      case (Cons colon r1)
      note sk = Cons
      from skip_ws_Cons_le[OF sk] have l1: "Suc (length r1) \<le> length r" .
      show ?thesis
      proof (cases "colon = 0x3A")
        case False
        with ss sk show ?thesis by simp
      next
        case col: True
        then have col': "\<not> colon \<noteq> 0x3A" by simp
        from "4.IH"(1)[OF ss refl sk col']
        have ih1: "(2 * length (skip_ws r1) < n \<longrightarrow> scan_once n depth maxd (skip_ws r1) \<noteq> None)
           \<and> (\<forall>v r'. scan_once n depth maxd (skip_ws r1) = Return (v, r')
                 \<longrightarrow> length r' < length (skip_ws r1))" .
        have lw: "length (skip_ws r1) \<le> length r1" by (rule skip_ws_le)
        show ?thesis
        proof (cases "scan_once n depth maxd (skip_ws r1)")
          case None
          with ih1 lw l1 lr ss sk col show ?thesis by auto
        next
          case (Some res)
          note so = Some
          show ?thesis
          proof (cases res)
            case (Inl e)
            with so ss sk col show ?thesis by simp
          next
            case (Inr vr)
            obtain v r2 where vr: "vr = (v, r2)" by (cases vr)
            from so Inr vr have sc: "scan_once n depth maxd (skip_ws r1) = Return (v, r2)" by simp
            from ih1 sc have l2: "length r2 < length (skip_ws r1)" by blast
            show ?thesis
            proof (cases "skip_ws r2")
              case Nil
              with ss sk col sc show ?thesis by simp
            next
              case (Cons nextchar r3)
              note sk2 = Cons
              from skip_ws_Cons_le[OF sk2] have l3: "Suc (length r3) \<le> length r2" .
              show ?thesis
              proof (cases "nextchar = 0x7D")
                case True
                with ss sk col sc sk2 l3 l2 lw l1 lr show ?thesis by auto
              next
                case nb: False
                show ?thesis
                proof (cases "nextchar = 0x2C")
                  case False
                  with ss sk col sc sk2 nb show ?thesis by simp
                next
                  case comma: True
                  then have comma': "\<not> nextchar \<noteq> 0x2C" by simp
                  show ?thesis
                  proof (cases "skip_ws r3")
                    case Nil
                    with ss sk col sc sk2 nb comma show ?thesis by simp
                  next
                    case (Cons q r4)
                    note sk3 = Cons
                    from skip_ws_Cons_le[OF sk3] have l4: "Suc (length r4) \<le> length r3" .
                    show ?thesis
                    proof (cases "q = 0x22")
                      case False
                      with ss sk col sc sk2 nb comma sk3 show ?thesis by simp
                    next
                      case True
                      then have q': "\<not> q \<noteq> 0x22" by simp
                      from "4.IH"(2)[OF ss refl sk col' sc refl refl sk2 nb comma' sk3 q']
                      have ih2: "(2 * length r4 < n
                            \<longrightarrow> JSONObject n depth maxd (dict_set pairs key v) r4 \<noteq> None)
                         \<and> (\<forall>v' r'. JSONObject n depth maxd (dict_set pairs key v) r4 = Return (v', r')
                               \<longrightarrow> length r' < length r4)" .
                      have e: "JSONObject (Suc n) depth maxd pairs s0
                          = JSONObject n depth maxd (dict_set pairs key v) r4"
                        using ss sk col sc sk2 nb comma sk3 True by simp
                      from ih2 l4 l3 l2 lw l1 lr show ?thesis
                        unfolding e by fastforce
                    qed
                  qed
                qed
              qed
            qed
          qed
        qed
      qed
    qed
  qed
next
  case (5 depth maxd vals s1)
  show ?case by simp
next
  case (6 n depth maxd vals s1)
  note ih1 = "6.IH"(1)
  show ?case
  proof (cases "scan_once n depth maxd s1")
    case None
    with ih1 show ?thesis by auto
  next
    case (Some res)
    note so = Some
    show ?thesis
    proof (cases res)
      case (Inl e)
      with so show ?thesis by simp
    next
      case (Inr vr)
      obtain v r where vr: "vr = (v, r)" by (cases vr)
      from so Inr vr have sc: "scan_once n depth maxd s1 = Return (v, r)" by simp
      from ih1 sc have l: "length r < length s1" by blast
      show ?thesis
      proof (cases "skip_ws r")
        case Nil
        with sc show ?thesis by simp
      next
        case (Cons nextchar r1)
        note sk = Cons
        from skip_ws_Cons_le[OF sk] have l1: "Suc (length r1) \<le> length r" .
        have lw: "length (skip_ws r1) \<le> length r1" by (rule skip_ws_le)
        show ?thesis
        proof (cases "nextchar = 0x5D")
          case True
          with sc sk l l1 show ?thesis by auto
        next
          case nb: False
          show ?thesis
          proof (cases "nextchar = 0x2C")
            case False
            with sc sk nb show ?thesis by simp
          next
            case True
            then have comma': "\<not> nextchar \<noteq> 0x2C" by simp
            from "6.IH"(2)[OF sc refl refl sk nb comma']
            have ih2: "(2 * length (skip_ws r1) + 1 < n
                  \<longrightarrow> JSONArray n depth maxd (vals @ [v]) (skip_ws r1) \<noteq> None)
               \<and> (\<forall>v' r'. JSONArray n depth maxd (vals @ [v]) (skip_ws r1) = Return (v', r')
                     \<longrightarrow> length r' < length (skip_ws r1))" .
            have e: "JSONArray (Suc n) depth maxd vals s1
                = JSONArray n depth maxd (vals @ [v]) (skip_ws r1)"
              using sc sk nb True by simp
            from ih2 lw l1 l show ?thesis
              unfolding e by fastforce
          qed
        qed
      qed
    qed
  qed
qed

lemma scan_once_enough_fuel:
  "scan_once (Suc (Suc (length s + length s))) depth maxd (skip_ws s) \<noteq> None"
  using scan_fuel(1)[of "skip_ws s" "Suc (Suc (length s + length s))" depth maxd] skip_ws_le[of s]
  by simp

section \<open>The decode buffer\<close>

lemma split1_decomp:
  "NL \<in> set buffer \<Longrightarrow> buffer = fst (split1 buffer) @ NL # snd (split1 buffer)"
proof -
  assume a: "NL \<in> set buffer"
  then have ne: "dropWhile (\<lambda>c. c \<noteq> NL) buffer \<noteq> []"
    by (simp add: dropWhile_eq_Nil_conv)
  then have "hd (dropWhile (\<lambda>c. c \<noteq> NL) buffer) = NL"
    using hd_dropWhile[of "\<lambda>c. c \<noteq> NL" buffer] by simp
  with ne have "dropWhile (\<lambda>c. c \<noteq> NL) buffer = NL # tl (dropWhile (\<lambda>c. c \<noteq> NL) buffer)"
    by (cases "dropWhile (\<lambda>c. c \<noteq> NL) buffer") auto
  then show ?thesis
    unfolding split1_def fst_conv snd_conv
    by (metis takeWhile_dropWhile_id)
qed

lemma split1_line_no_NL: "NL \<notin> set (fst (split1 buffer))"
  unfolding split1_def fst_conv
  by (metis (mono_tags, lifting) set_takeWhileD)

lemma takeWhile_no_NL: "NL \<notin> set xs \<Longrightarrow> takeWhile (\<lambda>c. c \<noteq> NL) (rev xs) = rev xs"
  by (rule takeWhile_eq_all_conv[THEN iffD2]) auto

lemma after_last_split1:
  assumes "NL \<in> set buffer"
  shows "rev (takeWhile (\<lambda>c. c \<noteq> NL) (rev buffer))
         = rev (takeWhile (\<lambda>c. c \<noteq> NL) (rev (snd (split1 buffer))))"
proof -
  have "rev buffer = rev (snd (split1 buffer)) @ NL # rev (fst (split1 buffer))"
    using split1_decomp[OF assms] by (metis rev.simps(2) rev_append append.assoc append_Cons append_Nil)
  then show ?thesis
    by (auto simp: takeWhile_append takeWhile_no_NL)
qed

lemma split_on_not_Nil: "split_on sep s \<noteq> []"
  by (induction s) (auto split: list.splits)

lemma split_on_no_sep: "sep \<notin> set s \<Longrightarrow> split_on sep s = [s]"
  by (induction s) auto

lemma split_on_append:
  "sep \<notin> set line \<Longrightarrow> split_on sep (line @ sep # s) = line # split_on sep s"
  by (induction line) (auto split: list.splits)

lemma complete_lines_step:
  "NL \<in> set buffer \<Longrightarrow>
     complete_lines buffer = fst (split1 buffer) # complete_lines (snd (split1 buffer))"
proof -
  assume a: "NL \<in> set buffer"
  have "split_on NL buffer = split_on NL (fst (split1 buffer) @ NL # snd (split1 buffer))"
    using split1_decomp[OF a] by simp
  also have "\<dots> = fst (split1 buffer) # split_on NL (snd (split1 buffer))"
    by (rule split_on_append[OF split1_line_no_NL])
  finally show ?thesis
    by (simp add: complete_lines_def split_on_not_Nil)
qed

lemma complete_lines_none: "NL \<notin> set buffer \<Longrightarrow> complete_lines buffer = []"
  by (simp add: complete_lines_def split_on_no_sep)

lemma process_buffer_lines:
  "process_buffer ip sys now evs buffer = (evs', buffer', x) \<Longrightarrow>
     (x = None) = list_all (\<lambda>line. snd (process_line ip sys now line) = None) (complete_lines buffer)
     \<and> (x = None \<longrightarrow>
          buffer' = rev (takeWhile (\<lambda>c. c \<noteq> NL) (rev buffer))
          \<and> evs' = evs @ concat (map (\<lambda>line. fst (process_line ip sys now line))
                                 (complete_lines buffer)))"
proof (induction ip sys now evs buffer rule: process_buffer.induct)
  case (1 ip sys now evs buffer)
  show ?case
  proof (cases "NL \<in> set buffer")
    case False
    with "1.prems" have "buffer' = buffer" "evs' = evs" "x = None"
      by (simp_all add: process_buffer.simps[of ip sys now evs buffer])
    then show ?thesis
      by (simp add: complete_lines_none[OF False] takeWhile_no_NL[OF False])
  next
    case True
    note al = after_last_split1[OF True]
    note cl = complete_lines_step[OF True]
    show ?thesis
    proof (cases "snd (process_line ip sys now (fst (split1 buffer)))")
      case None
      with True "1.prems"
      have "process_buffer ip sys now (evs @ fst (process_line ip sys now (fst (split1 buffer))))
              (snd (split1 buffer)) = (evs', buffer', x)"
        by (simp add: process_buffer.simps[of ip sys now evs buffer])
      from "1.IH"[OF True None this] None show ?thesis
        unfolding al cl by simp
    next
      case (Some e)
      with True "1.prems" have "x = Some e"
        by (simp add: process_buffer.simps[of ip sys now evs buffer])
      with Some show ?thesis
        unfolding cl by simp
    qed
  qed
qed

text \<open>
  C10. A processing pass is the inner loop of \<open>listen_for_commands\<close>, \<open>process_buffer\<close>,
  run on the buffer with the new data appended; the outer loop issues the next \<open>recv\<close>
  when the pass ends without an exception, and returns otherwise. The pass ends without
  an exception exactly when no line that has its terminator raises one (a blank line, a
  line that is not JSON and a command that \<open>process_command\<close> handles raise none). Then
  every such line has been taken off the front and handled, in order: the events of the
  pass are the events of these lines one after the other, and the buffer that is kept is
  the text after the last terminator, so it holds no terminator.
\<close>

theorem C10_buffer_has_no_terminator:
  "(snd (snd (process_buffer ip sys now evs buffer)) = None)
     = list_all (\<lambda>line. snd (process_line ip sys now line) = None) (complete_lines buffer)
   \<and> (snd (snd (process_buffer ip sys now evs buffer)) = None \<longrightarrow>
        NL \<notin> set (fst (snd (process_buffer ip sys now evs buffer)))
        \<and> fst (snd (process_buffer ip sys now evs buffer))
          = rev (takeWhile (\<lambda>c. c \<noteq> NL) (rev buffer))
        \<and> fst (process_buffer ip sys now evs buffer)
          = evs @ concat (map (\<lambda>line. fst (process_line ip sys now line))
                            (complete_lines buffer)))"
proof -
  obtain evs' buffer' x where r: "process_buffer ip sys now evs buffer = (evs', buffer', x)"
    by (cases "process_buffer ip sys now evs buffer") auto
  have "NL \<notin> set (takeWhile (\<lambda>c. c \<noteq> NL) (rev buffer))"
    by (metis (mono_tags, lifting) set_takeWhileD)
  with process_buffer_lines[OF r] show ?thesis
    unfolding r by auto
qed

theorem C10_buffer_has_no_terminator_witness:
  "snd (snd (process_buffer \<lparr>recursion_depth = 900, int_max_str_digits = 4300\<rparr> (\<lambda>c. None) [] []
          (ustr ''{\"action\": \"ping\"}'' @ [NL] @ ustr ''[[['' @ [NL] @ ustr ''{\"act''))) = None
   \<and> fst (snd (process_buffer \<lparr>recursion_depth = 900, int_max_str_digits = 4300\<rparr> (\<lambda>c. None) [] []
          (ustr ''{\"action\": \"ping\"}'' @ [NL] @ ustr ''[[['' @ [NL] @ ustr ''{\"act'')))
     = ustr ''{\"act''
   \<and> fst (process_buffer \<lparr>recursion_depth = 900, int_max_str_digits = 4300\<rparr> (\<lambda>c. None) [] []
          (ustr ''{\"action\": \"ping\"}'' @ [NL] @ ustr ''[[['' @ [NL] @ ustr ''{\"act''))
     = [Process_command (JObj [(ustr ''action'', JStr (ustr ''ping''))]),
        Log (Received_command (JStr (ustr ''ping''))), Log Invalid_JSON_received]"
proof -
  let ?ip = "\<lparr>recursion_depth = 900, int_max_str_digits = 4300\<rparr>"
  let ?B = "ustr ''{\"action\": \"ping\"}'' @ [NL] @ ustr ''[[['' @ [NL] @ ustr ''{\"act''"
  have cl: "complete_lines ?B = [ustr ''{\"action\": \"ping\"}'', ustr ''[[['']"
    by (simp add: complete_lines_def ustr_def NL_def)
  have l1: "process_line ?ip (\<lambda>c. None) [] (ustr ''{\"action\": \"ping\"}'')
      = ([Process_command (JObj [(ustr ''action'', JStr (ustr ''ping''))]),
          Log (Received_command (JStr (ustr ''ping'')))], None)"
    by (simp add: eval_rules)
  have l2: "process_line ?ip (\<lambda>c. None) [] (ustr ''[[['') = ([Log Invalid_JSON_received], None)"
    by (simp add: eval_rules)
  have tl: "rev (takeWhile (\<lambda>c. c \<noteq> NL) (rev ?B)) = ustr ''{\"act''"
    by (simp add: ustr_def NL_def)
  show ?thesis
    using C10_buffer_has_no_terminator[of ?ip "\<lambda>c. None" "[]" "[]" ?B]
    unfolding cl tl by (simp add: l1 l2)
qed

section \<open>The output of \<open>json.dumps\<close> is printable ASCII\<close>

lemma hexdigit_range: "d < 16 \<Longrightarrow> 0x20 \<le> hexdigit d \<and> hexdigit d \<le> 0x7E"
  by (simp add: hexdigit_def)

lemma u_escape_printable: "c \<in> set (u_escape n) \<Longrightarrow> 0x20 \<le> c \<and> c \<le> 0x7E"
  using hexdigit_range[of "n div 4096 mod 16"] hexdigit_range[of "n div 256 mod 16"]
    hexdigit_range[of "n div 16 mod 16"] hexdigit_range[of "n mod 16"]
  by (auto simp: u_escape_def)

lemma escape_char_printable: "c' \<in> set (escape_char c) \<Longrightarrow> 0x20 \<le> c' \<and> c' \<le> 0x7E"
  unfolding escape_char_def
  by (auto split: if_splits dest: u_escape_printable)

lemma basestring_printable:
  "c \<in> set (encode_basestring_ascii s) \<Longrightarrow> 0x20 \<le> c \<and> c \<le> 0x7E"
  unfolding encode_basestring_ascii_def
  by (auto dest: escape_char_printable)

lemma join_printable:
  "(\<And>p c. p \<in> set ps \<Longrightarrow> c \<in> set p \<Longrightarrow> 0x20 \<le> c \<and> c \<le> (0x7E::nat))
   \<Longrightarrow> c \<in> set (join (ustr '', '') ps) \<Longrightarrow> 0x20 \<le> c \<and> c \<le> 0x7E"
proof (induction "ustr '', ''" ps rule: join.induct)
  case 1
  then show ?case by simp
next
  case (2 p)
  then show ?case by simp
next
  case (3 p q ps)
  from "3.prems"(2) consider "c \<in> set p" | "c \<in> set (ustr '', '')" | "c \<in> set (join (ustr '', '') (q # ps))"
    by auto
  then show ?case
  proof cases
    case 1
    then show ?thesis using "3.prems"(1)[of p c] by simp
  next
    case 2
    then show ?thesis by (auto simp: ustr_def)
  next
    case 3
    show ?thesis
      by (rule "3.hyps"[OF _ 3]) (use "3.prems"(1) in auto)
  qed
qed

lemma dumps_item_printable: "c \<in> set (dumps_item kv) \<Longrightarrow> 0x20 \<le> c \<and> c \<le> 0x7E"
  unfolding dumps_item_def
  by (auto simp: ustr_def dest: basestring_printable)

lemma json_dumps_printable: "c \<in> set (json_dumps d) \<Longrightarrow> 0x20 \<le> c \<and> c \<le> 0x7E"
proof -
  assume "c \<in> set (json_dumps d)"
  then consider "c = 0x7B" | "c = 0x7D" | "c \<in> set (join (ustr '', '') (map dumps_item d))"
    unfolding json_dumps_def by auto
  then show ?thesis
  proof cases
    case 3
    show ?thesis
      by (rule join_printable[OF _ 3]) (auto dest: dumps_item_printable)
  qed simp_all
qed

lemma utf8_encode_ascii: "(\<And>c. c \<in> set s \<Longrightarrow> c < 0x80) \<Longrightarrow> utf8_encode s = Some s"
  by (induction s) (auto simp: utf8_encode_char_def)

lemma encode_json_dumps: "encode (json_dumps d) = Some (map char_of (json_dumps d))"
proof -
  have "utf8_encode (json_dumps d) = Some (json_dumps d)"
    by (rule utf8_encode_ascii) (use json_dumps_printable in fastforce)
  then show ?thesis by (simp add: encode_def)
qed

lemma wire_line_json_dumps:
  "wire_line (json_dumps d) = Some (map char_of (json_dumps d) @ [CHR 0x0A])"
  by (simp add: wire_line_def encode_json_dumps)

section \<open>The broadcast\<close>

lemma sends_append: "sends (xs @ ys) = sends xs @ sends ys"
  by (induction xs rule: sends.induct) auto

lemma deleted_by_none: "deleted_by [] live = live"
  by (simp add: deleted_by_def)

lemma fan_out_undisturbed:
  assumes "\<forall>m. logs m = None" and "length live = used"
  shows "snd (fan_out logs send (json_dumps command) command used items [] live)
           = (failed_addresses send items, live, None)
         \<and> sends (fst (fan_out logs send (json_dumps command) command used items [] live))
           = map (\<lambda>item. (snd item, map char_of (json_dumps command) @ [CHR 0x0A])) items"
  using assms
  by (induction items)
     (auto simp: failed_addresses_def wire_line_json_dumps next_of_def deleted_by_none
           split: option.splits prod.splits)

lemma dict_del_absent: "k \<notin> fst ` set d \<Longrightarrow> dict_del d k = d"
  unfolding dict_del_def by (induction d) auto

lemma remove_disconnected_undisturbed:
  assumes "\<forall>m. logs m = None"
  shows "snd (remove_disconnected logs addrs [] [] live)
           = (filter (\<lambda>item. fst item \<notin> set addrs) live, None)
         \<and> sends (fst (remove_disconnected logs addrs [] [] live)) = []"
proof (induction addrs arbitrary: live)
  case Nil
  then show ?case by simp
next
  case (Cons addr addrs)
  have f: "filter (\<lambda>item. fst item \<notin> set addrs) (dict_del live addr)
         = filter (\<lambda>item. fst item \<notin> set (addr # addrs)) live"
    by (auto simp: dict_del_def intro: filter_cong)
  show ?case
  proof (cases "addr \<in> fst ` set live")
    case True
    with Cons.IH[of "dict_del live addr"] assms show ?thesis
      by (simp add: next_of_def deleted_by_none emit_def f)
  next
    case False
    with Cons.IH[of live] f dict_del_absent[OF False] show ?thesis
      by (simp add: next_of_def deleted_by_none)
  qed
qed

text \<open>When no heartbeat thread touches the registry during the broadcast and no log
  raises, the fan-out is complete.\<close>

lemma send_command_undisturbed:
  assumes "\<forall>m. logs m = None"
  shows "snd (snd (send_command logs send no_interference clients command)) = None
    \<and> sends (fst (send_command logs send no_interference clients command))
      = map (\<lambda>item. (snd item, map char_of (json_dumps command) @ [CHR 0x0A])) clients
    \<and> fst (snd (send_command logs send no_interference clients command))
      = filter (\<lambda>item. fst item \<notin> set (failed_addresses send clients)) clients"
proof (cases "clients = []")
  case True
  with assms show ?thesis by (simp add: send_command_def)
next
  case False
  obtain evs where f: "fan_out logs send (json_dumps command) command (length clients) clients []
      clients = (evs, failed_addresses send clients, clients, None)"
    and s: "sends evs
      = map (\<lambda>item. (snd item, map char_of (json_dumps command) @ [CHR 0x0A])) clients"
    using fan_out_undisturbed[OF assms refl, where send=send and command=command
        and items=clients and live=clients]
    by (cases "fan_out logs send (json_dumps command) command (length clients) clients [] clients")
       auto
  obtain evs2 where r: "remove_disconnected logs (failed_addresses send clients) [] [] clients
      = (evs2, filter (\<lambda>item. fst item \<notin> set (failed_addresses send clients)) clients, None)"
    and s2: "sends evs2 = []"
    using remove_disconnected_undisturbed[OF assms, where addrs="failed_addresses send clients"
        and live=clients]
    by (cases "remove_disconnected logs (failed_addresses send clients) [] [] clients") auto
  from False f s r s2 show ?thesis
    by (simp add: send_command_def no_interference_def sends_append)
qed

lemmas server_eval_rules =
  send_command_def json_dumps_def dumps_item_def encode_basestring_ascii_def escape_char_def
  ustr_def wire_line_def encode_def utf8_encode_char_def next_of_def deleted_by_def dict_del_def
  char_of_def bit_iff_odd

text \<open>
  C1. \<open>send_command\<close> does not take a snapshot of the registry: its loop runs over
  \<open>self.clients.items()\<close>, the dictionary that the heartbeat threads delete from, and
  the iterator of a dictionary raises \<open>RuntimeError\<close> when the size has changed. Three
  agents are registered and every write succeeds; while the first write of the
  broadcast is under way, the heartbeat thread of the third agent finds its connection
  dead and deletes its address. Then the broadcast makes the first write only:
  \<open>RuntimeError\<close> leaves \<open>send_command\<close>, and the second agent, registered at the time
  of the broadcast and reachable, is sent nothing.
\<close>

theorem C1_broadcast_aborted:
  "send_command (\<lambda>m. None) (\<lambda>s. None)
     \<lparr>during_turn = [[(ustr ''10.0.0.13'', 50003)]], before_test = [], before_del = []\<rparr>
     [((ustr ''10.0.0.11'', 50001), 1), ((ustr ''10.0.0.12'', 50002), 2),
      ((ustr ''10.0.0.13'', 50003), 3)]
     [(ustr ''action'', ustr ''lock'')]
   = ([Send 1 ''{\"action\": \"lock\"}\<newline>'',
       Log (Sent_command_to (ustr ''10.0.0.11'') [(ustr ''action'', ustr ''lock'')])],
      [((ustr ''10.0.0.11'', 50001), 1), ((ustr ''10.0.0.12'', 50002), 2)],
      Some RuntimeError)"
  by (simp add: server_eval_rules)

section \<open>Lines that are not commands, and commands that are not carried out\<close>

text \<open>A line that is not JSON is logged and passed over: the pass goes on with the next
  line.\<close>

lemma invalid_json_line_skipped:
  "strip line \<noteq> [] \<Longrightarrow> json_loads ip (strip line) = Inl JSONDecodeError \<Longrightarrow>
     process_line ip sys now line = ([Log Invalid_JSON_received], None)"
  by (simp add: process_line_def)

text \<open>A line that is JSON but not an object is handed to \<open>process_command\<close>, whose first
  statement raises \<open>AttributeError\<close>; nothing in the inner loop catches it.\<close>

lemma non_object_line_raises:
  "strip line \<noteq> [] \<Longrightarrow> json_loads ip (strip line) = Inr v \<Longrightarrow> \<forall>d. v \<noteq> JObj d \<Longrightarrow>
     process_line ip sys now line = ([Process_command v], Some AttributeError)"
  by (cases v) (simp_all add: process_line_def process_command_def emit_def)

text \<open>
  C3. Two reads: the line \<open>null\<close>, then a \<open>lock\<close> command. The first line is valid JSON
  but not a command record. It is not discarded with a warning: it is handed to
  \<open>process_command\<close>, where \<open>command.get\<close> raises \<open>AttributeError\<close>; the handler of
  \<open>JSONDecodeError\<close> does not catch it and the outer handler leaves the read loop. No
  second \<open>recv\<close> is made and the \<open>lock\<close> command is never read.
\<close>

theorem C3_non_record_line_ends_the_loop:
  "listen_for_commands \<lparr>recursion_depth = 900, int_max_str_digits = 4300\<rparr> (\<lambda>c. None) [] True
     [Data ''null\<newline>'', Data ''{\"action\": \"lock\"}\<newline>'']
   = [Recv 1024, Process_command JNull, Log (Error_receiving_data AttributeError)]"
  by (simp add: eval_rules)

text \<open>A command object whose action can be printed never raises: an exception of the
  body is caught and logged. An action that is not recognised is logged twice and
  nothing is called.\<close>

lemma process_command_contained:
  assumes "\<not> list_ex is_surrogate (inserted (dict_get d (ustr ''action'') (JStr [])))"
  shows "snd (process_command sys now (JObj d)) = None"
  using assms
  by (auto simp: process_command_def Let_def then_do_def log_message_def handled_def
      split: option.splits)

lemma executor_exception_logged:
  assumes "\<not> list_ex is_surrogate (inserted (dict_get d (ustr ''action'') (JStr [])))"
    and "execute_action sys now d (dict_get d (ustr ''action'') (JStr [])) = (evs, Some e)"
  shows "process_command sys now (JObj d)
    = (Log (Received_command (dict_get d (ustr ''action'') (JStr []))) # evs
       @ [Log (Error_executing_command (dict_get d (ustr ''action'') (JStr [])) e)], None)"
  using assms
  by (simp add: process_command_def Let_def then_do_def log_message_def handled_def)

lemma unknown_action_ignored:
  assumes "\<not> list_ex is_surrogate (inserted (dict_get d (ustr ''action'') (JStr [])))"
    and "dict_get d (ustr ''action'') (JStr []) \<notin> set recognized_actions"
  shows "process_command sys now (JObj d)
    = ([Log (Received_command (dict_get d (ustr ''action'') (JStr []))),
        Log (Unknown_command (dict_get d (ustr ''action'') (JStr [])))], None)"
  using assms
  by (simp add: process_command_def Let_def then_do_def log_message_def handled_def
      execute_action_def recognized_actions_def)

text \<open>
  C4. One read with two lines: a command object whose action is the text of one lone
  surrogate (written in the line as the JSON escape of U+D800), then a \<open>ping\<close>. The object is handed to
  \<open>process_command\<close>, whose \<open>log_message\<close> of the action is outside the \<open>try\<close>: \<open>print\<close>
  raises \<open>UnicodeEncodeError\<close>, the exception reaches the read loop and ends it. The
  action is not logged as unknown and the \<open>ping\<close> that follows is not processed.
\<close>

theorem C4_exception_reaches_the_read_loop:
  "listen_for_commands \<lparr>recursion_depth = 900, int_max_str_digits = 4300\<rparr> (\<lambda>c. None) [] True
     [Data (''{\"action\": \"'' @ [CHR 0x5C] @ ''ud800\"}\<newline>{\"action\": \"ping\"}\<newline>'')]
   = [Recv 1024, Process_command (JObj [(ustr ''action'', JStr [0xD800])]),
      Log (Error_receiving_data UnicodeEncodeError)]"
  by (simp add: eval_rules)

section \<open>Chunks\<close>

text \<open>
  C2. A line in UTF-8: a \<open>message\<close> command whose content is the letter e with an
  acute accent (U+00E9), which takes the two bytes C3 A9. Read in one piece, the line
  gives the message. Read in two pieces cut
  between these two bytes, it gives nothing: each piece is decoded on its own
  (\<open>recv(1024).decode()\<close>), the first ends inside a character, \<open>UnicodeDecodeError\<close> is
  raised and the read loop ends.
\<close>

theorem C2_chunk_cut_inside_a_character:
  "decoded (listen_for_commands \<lparr>recursion_depth = 900, int_max_str_digits = 4300\<rparr>
       (\<lambda>c. None) [] True
       [Data (''{\"action\": \"message\", \"content\": \"'' @ [CHR 0xC3, CHR 0xA9] @ ''\"}\<newline>'')])
     = [JObj [(ustr ''action'', JStr (ustr ''message'')), (ustr ''content'', JStr [0xE9])]]
   \<and> listen_for_commands \<lparr>recursion_depth = 900, int_max_str_digits = 4300\<rparr>
       (\<lambda>c. None) [] True
       [Data (''{\"action\": \"message\", \"content\": \"'' @ [CHR 0xC3]),
        Data ([CHR 0xA9] @ ''\"}\<newline>'')]
     = [Recv 1024, Log (Error_receiving_data UnicodeDecodeError)]"
  by (simp add: eval_rules show_message_def)

section \<open>The heartbeat\<close>

lemma ping_line:
  "wire_line (json_dumps [(ustr ''action'', ustr ''ping'')]) = Some ''{\"action\": \"ping\"}\<newline>''"
  by (simp add: wire_line_def encode_def utf8_encode_char_def json_dumps_def dumps_item_def
      encode_basestring_ascii_def escape_char_def ustr_def
      char_of_def bit_iff_odd)

lemma handle_client_alive:
  "handle_client client_sock address (replicate k (True, None) @ script) clients
   = emit (concat (replicate k [Send client_sock ''{\"action\": \"ping\"}\<newline>'', Sleep 10]))
       (handle_client client_sock address script clients)"
  by (induction k) (simp_all add: emit_def ping_line)

text \<open>
  C5. The heartbeat loop \<open>handle_client\<close> of a connection: as long as the write succeeds,
  each turn sends the line \<open>{"action": "ping"}\<close> (the ping message, which has no payload)
  and then sleeps 10 seconds. At the first write that fails (an \<open>OSError\<close> of any kind) the
  loop does not sleep: it logs, removes from the registry the entry of its own address and
  no other entry, schedules the refresh of the list box and leaves the loop, whatever the
  rest of the script says. While every write succeeds and the flag \<open>running\<close> holds, the loop
  is still looping and the registry is as it was: nothing but the loop itself ends it.
\<close>

theorem C5_heartbeat_loop:
  "handle_client client_sock address (replicate k (True, None) @ (True, Some e) # script) clients
   = (concat (replicate k [Send client_sock ''{\"action\": \"ping\"}\<newline>'', Sleep 10])
      @ [Send client_sock ''{\"action\": \"ping\"}\<newline>'', Log (Client_disconnected address),
         Root_after_update_clients_listbox],
      filter (\<lambda>item. fst item \<noteq> address) clients, Terminated)
   \<and> handle_client client_sock address (replicate k (True, None)) clients
     = (concat (replicate k [Send client_sock ''{\"action\": \"ping\"}\<newline>'', Sleep 10]),
        clients, Still_looping)"
proof
  show "handle_client client_sock address (replicate k (True, None) @ (True, Some e) # script) clients
   = (concat (replicate k [Send client_sock ''{\"action\": \"ping\"}\<newline>'', Sleep 10])
      @ [Send client_sock ''{\"action\": \"ping\"}\<newline>'', Log (Client_disconnected address),
         Root_after_update_clients_listbox],
      filter (\<lambda>item. fst item \<noteq> address) clients, Terminated)"
    by (simp add: handle_client_alive emit_def ping_line dict_del_def)
  show "handle_client client_sock address (replicate k (True, None)) clients
     = (concat (replicate k [Send client_sock ''{\"action\": \"ping\"}\<newline>'', Sleep 10]),
        clients, Still_looping)"
    using handle_client_alive[of client_sock address k "[]" clients]
    by (simp add: emit_def)
qed

section \<open>The round trip through \<open>json.dumps\<close> and \<open>json.loads\<close>\<close>

lemma hexval_hexdigit: "d < 16 \<Longrightarrow> hexval (hexdigit d) = Some d"
  by (auto simp: hexval_def hexdigit_def)

lemma four_digits:
  assumes "n < 65536"
  shows "n div 4096 mod 16 * 4096 + n div 256 mod 16 * 256 + n div 16 mod 16 * 16 + n mod 16
         = (n::nat)"
proof -
  have a: "n mod 256 = 16 * (n div 16 mod 16) + n mod 16"
    using mod_mult2_eq[of n 16 16] by simp
  have b: "n mod 4096 = 256 * (n div 256 mod 16) + n mod 256"
    using mod_mult2_eq[of n 256 16] by simp
  have c: "n mod 65536 = 4096 * (n div 4096 mod 16) + n mod 4096"
    using mod_mult2_eq[of n 4096 16] by simp
  from assms have "n mod 65536 = n" by simp
  with a b c show ?thesis by linarith
qed

lemma decode_u_escape:
  assumes "n < 65536"
  shows "decode_uXXXX (drop 2 (u_escape n @ t)) = Some (n, t)"
proof -
  have "decode_uXXXX (drop 2 (u_escape n @ t))
      = Some (n div 4096 mod 16 * 4096 + n div 256 mod 16 * 256 + n div 16 mod 16 * 16
              + n mod 16, t)"
    by (simp add: u_escape_def decode_uXXXX_def hexval_hexdigit)
  then show ?thesis
    by (simp only: four_digits[OF assms])
qed

lemma take_u_escape: "take 2 (u_escape n @ t) = [0x5C, 0x75]"
  by (simp add: u_escape_def)

lemma u_escape_Cons: "u_escape n @ t = 0x5C # 0x75 # drop 2 (u_escape n @ t)"
  by (simp add: u_escape_def)


lemma scanstring_u_escape:
  assumes "c < 65536" and "0xD800 \<le> c \<and> c \<le> 0xDBFF \<longrightarrow> not_joined t"
  shows "scanstring acc (u_escape c @ t) = scanstring (acc @ [c]) t"
proof -
  define rest where "rest = drop 2 (u_escape c @ t)"
  have d: "decode_uXXXX rest = Some (c, t)"
    unfolding rest_def by (rule decode_u_escape[OF assms(1)])
  have e: "u_escape c @ t = 0x5C # 0x75 # rest"
    unfolding rest_def by (rule u_escape_Cons)
  show ?thesis
    unfolding e using assms(2) by (auto simp: d not_joined_def)
qed

lemma scanstring_surrogate_pair:
  assumes "0x10000 \<le> c" and "c < 0x110000"
  shows "scanstring acc (escape_char c @ t) = scanstring (acc @ [c]) t"
proof -
  let ?h = "0xD800 + (c - 0x10000) div 1024 mod 1024"
  let ?l = "0xDC00 + (c - 0x10000) mod 1024"
  have e: "escape_char c @ t = u_escape ?h @ u_escape ?l @ t"
    using assms by (simp add: escape_char_def)
  have hh: "?h < 65536" "0xD800 \<le> ?h" "?h \<le> 0xDBFF"
    using mod_less_divisor[of 1024 "(c - 0x10000) div 1024"] by simp_all
  have ll: "?l < 65536" "0xDC00 \<le> ?l" "?l \<le> 0xDFFF"
    using mod_less_divisor[of 1024 "c - 0x10000"] by simp_all
  have d1: "decode_uXXXX (drop 2 (u_escape ?h @ u_escape ?l @ t)) = Some (?h, u_escape ?l @ t)"
    by (rule decode_u_escape[OF hh(1)])
  have d2: "decode_uXXXX (drop 2 (u_escape ?l @ t)) = Some (?l, t)"
    by (rule decode_u_escape[OF ll(1)])
  have small: "(c - 0x10000) div 1024 < 1024"
    using assms by simp
  have v: "0x10000 + ((?h - 0xD800) * 1024 + (?l - 0xDC00)) = c"
  proof -
    have "(c - 0x10000) div 1024 mod 1024 = (c - 0x10000) div 1024"
      using small by simp
    then have "(?h - 0xD800) * 1024 + (?l - 0xDC00)
        = (c - 0x10000) div 1024 * 1024 + (c - 0x10000) mod 1024"
      by simp
    also have "\<dots> = c - 0x10000"
      by simp
    finally show ?thesis using assms(1) by simp
  qed
  define s2 where "s2 = u_escape ?l @ t"
  define rest where "rest = drop 2 (u_escape ?h @ s2)"
  have e1: "u_escape ?h @ s2 = 0x5C # 0x75 # rest"
    unfolding rest_def by (rule u_escape_Cons)
  have d1': "decode_uXXXX rest = Some (?h, s2)"
    unfolding rest_def by (rule decode_u_escape[OF hh(1)])
  have t2: "take 2 s2 = [0x5C, 0x75]"
    unfolding s2_def by (rule take_u_escape)
  have d2': "decode_uXXXX (drop 2 s2) = Some (?l, t)"
    unfolding s2_def by (rule d2)
  have "scanstring acc (u_escape ?h @ s2)
      = scanstring (acc @ [0x10000 + ((?h - 0xD800) * 1024 + (?l - 0xDC00))]) t"
    unfolding e1 using hh(2,3) ll(2,3) by (simp add: d1' d2' t2)
  then show ?thesis
    unfolding e v s2_def .
qed

lemma scanstring_escape_char:
  assumes "c < 0x110000" and "0xD800 \<le> c \<and> c \<le> 0xDBFF \<longrightarrow> not_joined t"
  shows "scanstring acc (escape_char c @ t) = scanstring (acc @ [c]) t"
proof (cases "c < 0x10000")
  case False
  with assms(1) show ?thesis by (simp add: scanstring_surrogate_pair)
next
  case True
  show ?thesis
  proof (cases "escape_char c = u_escape c")
    case True
    with \<open>c < 0x10000\<close> assms(2) show ?thesis
      by (simp add: scanstring_u_escape)
  next
    case False
    with \<open>c < 0x10000\<close> show ?thesis
      by (auto simp: escape_char_def backslash_def split: if_splits)
  qed
qed

lemma not_joined_quote: "not_joined (0x22 # t)"
  by (simp add: not_joined_def)

lemma not_joined_u_escape:
  assumes "n < 65536" and "\<not> (0xDC00 \<le> n \<and> n \<le> 0xDFFF)"
  shows "not_joined (u_escape n @ t)"
  unfolding not_joined_def using decode_u_escape[OF assms(1), of t] assms(2) by blast

lemma not_joined_escape_char:
  assumes "b < 0x110000" and "\<not> (0xDC00 \<le> b \<and> b \<le> 0xDFFF)"
  shows "not_joined (escape_char b @ t)"
proof (cases "b < 0x10000")
  case False
  let ?h = "0xD800 + (b - 0x10000) div 1024 mod 1024"
  have hh: "?h < 65536" "\<not> (0xDC00 \<le> ?h \<and> ?h \<le> 0xDFFF)"
    using mod_less_divisor[of 1024 "(b - 0x10000) div 1024"] by simp_all
  have e: "escape_char b @ t = u_escape ?h @ u_escape (0xDC00 + (b - 0x10000) mod 1024) @ t"
    using False by (simp add: escape_char_def)
  show ?thesis
    unfolding e by (rule not_joined_u_escape[OF hh])
next
  case True
  show ?thesis
  proof (cases "escape_char b = u_escape b")
    case True
    then show ?thesis
      using not_joined_u_escape[OF \<open>b < 0x10000\<close> assms(2), of t] by simp
  next
    case False
    with \<open>b < 0x10000\<close> show ?thesis
      by (auto simp: escape_char_def not_joined_def split: if_splits)
  qed
qed

lemma scanstring_escaped:
  "python_text s \<Longrightarrow> no_surrogate_pair s \<Longrightarrow>
     scanstring acc (concat (map escape_char s) @ 0x22 # t) = Some (acc @ s, t)"
proof (induction s arbitrary: acc)
  case Nil
  then show ?case by simp
next
  case (Cons c s)
  have c: "c < 0x110000" and ps: "python_text s"
    using Cons.prems(1) by (simp_all add: python_text_def)
  have ns: "no_surrogate_pair s"
    using Cons.prems(2) by (cases s) simp_all
  have look: "0xD800 \<le> c \<and> c \<le> 0xDBFF \<longrightarrow> not_joined (concat (map escape_char s) @ 0x22 # t)"
  proof (cases s)
    case Nil
    then show ?thesis by (simp add: not_joined_quote)
  next
    case (Cons b s')
    with Cons.prems(2) have "0xD800 \<le> c \<and> c \<le> 0xDBFF \<longrightarrow> \<not> (0xDC00 \<le> b \<and> b \<le> 0xDFFF)"
      by auto
    moreover from Cons ps have "b < 0x110000" by (simp add: python_text_def)
    ultimately show ?thesis
      using Cons not_joined_escape_char[of b "concat (map escape_char s') @ 0x22 # t"] by auto
  qed
  have "scanstring acc (concat (map escape_char (c # s)) @ 0x22 # t)
      = scanstring (acc @ [c]) (concat (map escape_char s) @ 0x22 # t)"
    using scanstring_escape_char[OF c look] by simp
  also have "\<dots> = Some ((acc @ [c]) @ s, t)"
    by (rule Cons.IH[OF ps ns])
  finally show ?case by simp
qed


lemma skip_ws_head: "\<not> json_ws c \<Longrightarrow> skip_ws (c # t) = c # t"
  by (simp add: skip_ws_def)

lemma skip_ws_space: "skip_ws (0x20 # 0x22 # t) = 0x22 # t"
  by (simp add: skip_ws_def json_ws_def)

lemma dumps_item_Cons:
  "dumps_item kv = 0x22 # concat (map escape_char (fst kv)) @ 0x22 # 0x3A # 0x20 # 0x22
     # concat (map escape_char (snd kv)) @ [0x22]"
  by (simp add: dumps_item_def encode_basestring_ascii_def ustr_def)

text \<open>One member of an object, read by \<open>JSONObject\<close> after the opening quote of its
  key.\<close>

lemma JSONObject_last_member:
  assumes "member_ok kv"
  shows "JSONObject (Suc (Suc n)) depth maxd pairs (tl (dumps_item kv) @ 0x7D # t)
    = Return (JObj (dict_set pairs (fst kv) (JStr (snd kv))), t)"
proof -
  have k: "scanstring [] (concat (map escape_char (fst kv)) @ 0x22 # r) = Some (fst kv, r)" for r
    using scanstring_escaped[of "fst kv" "[]" r] assms by (simp add: member_ok_def)
  have v: "scanstring [] (concat (map escape_char (snd kv)) @ 0x22 # r) = Some (snd kv, r)" for r
    using scanstring_escaped[of "snd kv" "[]" r] assms by (simp add: member_ok_def)
  show ?thesis
    by (simp add: dumps_item_Cons k v skip_ws_head skip_ws_space json_ws_def)
qed

lemma JSONObject_member:
  assumes "member_ok kv"
  shows "JSONObject (Suc (Suc n)) depth maxd pairs
           (tl (dumps_item kv) @ 0x2C # 0x20 # 0x22 # t)
    = JSONObject (Suc n) depth maxd (dict_set pairs (fst kv) (JStr (snd kv))) t"
proof -
  have k: "scanstring [] (concat (map escape_char (fst kv)) @ 0x22 # r) = Some (fst kv, r)" for r
    using scanstring_escaped[of "fst kv" "[]" r] assms by (simp add: member_ok_def)
  have v: "scanstring [] (concat (map escape_char (snd kv)) @ 0x22 # r) = Some (snd kv, r)" for r
    using scanstring_escaped[of "snd kv" "[]" r] assms by (simp add: member_ok_def)
  show ?thesis
    by (simp add: dumps_item_Cons k v skip_ws_head skip_ws_space json_ws_def)
qed

lemma join_items_Cons:
  "join (ustr '', '') (map dumps_item (p # q # ps))
   = dumps_item p @ 0x2C # 0x20 # join (ustr '', '') (map dumps_item (q # ps))"
  by (simp add: ustr_def)

lemma join_items_quote:
  "join (ustr '', '') (map dumps_item (q # ps))
   = 0x22 # tl (join (ustr '', '') (map dumps_item (q # ps)))"
  by (cases ps) (simp_all add: dumps_item_Cons)

lemma JSONObject_members:
  "list_all member_ok ps \<Longrightarrow> ps \<noteq> [] \<Longrightarrow> length ps < n \<Longrightarrow>
     JSONObject n depth maxd pairs (tl (join (ustr '', '') (map dumps_item ps)) @ 0x7D # t)
     = Return (JObj (foldl (\<lambda>acc kv. dict_set acc (fst kv) (JStr (snd kv))) pairs ps), t)"
proof (induction ps arbitrary: n pairs)
  case Nil
  then show ?case by simp
next
  case (Cons p ps)
  from Cons.prems(3) obtain m where n: "n = Suc (Suc m)" and m: "length ps \<le> m"
    by (cases n; cases "n - 1") auto
  from Cons.prems(1) have ok: "member_ok p" and oks: "list_all member_ok ps" by simp_all
  show ?case
  proof (cases ps)
    case Nil
    then show ?thesis
      unfolding n using JSONObject_last_member[OF ok, of m depth maxd pairs t] by simp
  next
    case (Cons q qs)
    have "tl (join (ustr '', '') (map dumps_item (p # q # qs))) @ 0x7D # t
        = tl (dumps_item p) @ 0x2C # 0x20 # 0x22
          # (tl (join (ustr '', '') (map dumps_item (q # qs))) @ 0x7D # t)"
      unfolding join_items_Cons using join_items_quote[of q qs]
      by (simp add: dumps_item_Cons)
    then have "JSONObject n depth maxd pairs
          (tl (join (ustr '', '') (map dumps_item (p # ps))) @ 0x7D # t)
        = JSONObject (Suc m) depth maxd (dict_set pairs (fst p) (JStr (snd p)))
            (tl (join (ustr '', '') (map dumps_item (q # qs))) @ 0x7D # t)"
      unfolding n Cons using JSONObject_member[OF ok] by simp
    also have "\<dots> = Return (JObj (foldl (\<lambda>acc kv. dict_set acc (fst kv) (JStr (snd kv)))
                                  (dict_set pairs (fst p) (JStr (snd p))) (q # qs)), t)"
      using Cons.IH[of "Suc m" "dict_set pairs (fst p) (JStr (snd p))"] oks m Cons by simp
    finally show ?thesis
      using Cons by simp
  qed
qed

lemma dict_set_new: "k \<notin> fst ` set pairs \<Longrightarrow> dict_set pairs k v = pairs @ [(k, v)]"
  by (induction pairs) auto

lemma foldl_dict_set_distinct:
  "distinct (map fst ps) \<Longrightarrow> fst ` set pairs \<inter> fst ` set ps = {} \<Longrightarrow>
     foldl (\<lambda>acc kv. dict_set acc (fst kv) (JStr (snd kv))) pairs ps
     = pairs @ map (\<lambda>kv. (fst kv, JStr (snd kv))) ps"
proof (induction ps arbitrary: pairs)
  case Nil
  then show ?case by simp
next
  case (Cons p ps)
  from Cons.prems(2) have new: "fst p \<notin> fst ` set pairs" by auto
  have "fst ` set (pairs @ [(fst p, JStr (snd p))]) \<inter> fst ` set ps = {}"
    using Cons.prems by auto
  with Cons.IH[of "pairs @ [(fst p, JStr (snd p))]"] Cons.prems(1) show ?case
    by (simp add: dict_set_new[OF new])
qed

lemma length_join: "\<forall>p \<in> set ps. p \<noteq> [] \<Longrightarrow> length ps \<le> length (join sep ps)"
proof (induction sep ps rule: join.induct)
  case (1 sep)
  then show ?case by simp
next
  case (2 sep p)
  then show ?case by (cases p) simp_all
next
  case (3 sep p q ps)
  then have "length (q # ps) \<le> length (join sep (q # ps))" and "p \<noteq> []" by simp_all
  then show ?case by (cases p) simp_all
qed

lemma length_join_items: "length ps \<le> length (join (ustr '', '') (map dumps_item ps))"
  using length_join[of "map dumps_item ps" "ustr '', ''"] by (simp add: dumps_item_Cons)

lemma json_loads_json_dumps:
  assumes "list_all member_ok d" and "distinct (map fst d)" and "0 < recursion_depth ip"
  shows "json_loads ip (json_dumps d) = Inr (command_json d)"
proof -
  obtain inner where depth: "recursion_depth ip = Suc inner"
    using assms(3) by (cases "recursion_depth ip") auto
  show ?thesis
  proof (cases d)
    case Nil
    then show ?thesis
      by (simp add: json_loads_def json_dumps_def command_json_def skip_ws_def json_ws_def depth)
  next
    case (Cons p ps)
    let ?body = "join (ustr '', '') (map dumps_item d)"
    have q: "?body = 0x22 # tl ?body"
      unfolding Cons by (rule join_items_quote)
    have len: "length d < Suc (length (json_dumps d) + length (json_dumps d))"
      using length_join_items[of d] by (simp add: json_dumps_def)
    have "JSONObject (Suc (length (json_dumps d) + length (json_dumps d))) inner
            (int_max_str_digits ip) [] (tl ?body @ 0x7D # [])
        = Return (JObj (foldl (\<lambda>acc kv. dict_set acc (fst kv) (JStr (snd kv))) [] d), [])"
      using JSONObject_members[OF assms(1) _ len] Cons by simp
    also have "foldl (\<lambda>acc kv. dict_set acc (fst kv) (JStr (snd kv))) [] d
        = map (\<lambda>kv. (fst kv, JStr (snd kv))) d"
      using foldl_dict_set_distinct[OF assms(2), of "[]"] by simp
    finally have obj: "JSONObject (Suc (length (json_dumps d) + length (json_dumps d))) inner
            (int_max_str_digits ip) [] (tl ?body @ [0x7D])
        = Return (command_json d, [])"
      by (simp add: command_json_def)
    have s: "json_dumps d = 0x7B # 0x22 # tl ?body @ [0x7D]"
      using q by (simp add: json_dumps_def)
    have sc: "scan_once (Suc (Suc (length (json_dumps d) + length (json_dumps d)))) (Suc inner)
            (int_max_str_digits ip) (0x7B # 0x22 # tl ?body @ [0x7D])
        = Return (command_json d, [])"
      using obj by (simp add: skip_ws_head json_ws_def)
    have sk: "skip_ws (json_dumps d) = json_dumps d"
      by (simp add: json_dumps_def skip_ws_head json_ws_def)
    have bom: "take 1 (json_dumps d) \<noteq> [0xFEFF]"
      by (simp add: json_dumps_def)
    have sc': "scan_once (Suc (Suc (length (json_dumps d) + length (json_dumps d))))
            (recursion_depth ip) (int_max_str_digits ip) (json_dumps d)
        = Return (command_json d, [])"
      using sc by (simp only: s[symmetric] depth)
    show ?thesis
      unfolding json_loads_def sk sc' using bom by (simp add: skip_ws_def)
  qed
qed


lemma utf8_decode_ascii: "list_all (\<lambda>b. b < 0x80) bs \<Longrightarrow> utf8_decode bs = Some bs"
  by (induction bs) simp_all

lemma of_char_char_of: "list_all (\<lambda>c. c < 0x80) s \<Longrightarrow> map of_char (map char_of s) = (s :: nat list)"
  by (induction s) simp_all

lemma json_dumps_ascii: "list_all (\<lambda>c. c < 0x80) (json_dumps d)"
  unfolding list_all_iff using json_dumps_printable[of _ d] by fastforce

lemma json_dumps_no_NL: "NL \<notin> set (json_dumps d)"
  using json_dumps_printable[of NL d] by (auto simp: NL_def)

lemma decode_wire_line:
  "decode (map char_of (json_dumps d) @ [CHR 0x0A]) = Some (json_dumps d @ [NL])"
proof -
  have "list_all (\<lambda>c. c < 0x80) (json_dumps d @ [NL])"
    using json_dumps_ascii[of d] by (simp add: NL_def)
  from utf8_decode_ascii[OF this] of_char_char_of[OF json_dumps_ascii[of d]] show ?thesis
    by (simp add: decode_def NL_def)
qed

lemma split1_one_line: "NL \<notin> set s \<Longrightarrow> split1 (s @ [NL]) = (s, [])"
  by (simp add: split1_def takeWhile_append dropWhile_append takeWhile_eq_all_conv[THEN iffD2]
      dropWhile_eq_Nil_conv[THEN iffD2])

lemma strip_json_dumps: "strip (json_dumps d) = json_dumps d"
  by (simp add: strip_def json_dumps_def py_isspace_def)

lemma listen_one_line:
  assumes "json_loads ip (json_dumps d) = Inr command"
  shows "\<exists>evs. listen_for_commands ip sys now True [Data (map char_of (json_dumps d) @ [CHR 0x0A])]
           = Recv 1024 # Process_command command # evs"
proof -
  have ne: "json_dumps d \<noteq> []" by (simp add: json_dumps_def)
  have l: "process_line ip sys now (json_dumps d)
      = emit [Process_command command] (process_command sys now command)"
    using assms ne by (simp add: process_line_def strip_json_dumps)
  have sp: "split1 (json_dumps d @ [NL]) = (json_dumps d, [])"
    by (rule split1_one_line[OF json_dumps_no_NL])
  have e: "process_buffer ip sys now evs [] = (evs, [], None)" for evs
    by (simp add: process_buffer.simps[of ip sys now evs "[]"])
  have pb: "\<exists>evs b x. process_buffer ip sys now [] (json_dumps d @ [NL])
      = (Process_command command # evs, b, x)"
    by (cases "snd (process_command sys now command)")
       (simp_all add: process_buffer.simps[of ip sys now "[]" "json_dumps d @ [NL]"] sp l emit_def e)
  then obtain evs b x where r: "process_buffer ip sys now [] (json_dumps d @ [NL])
      = (Process_command command # evs, b, x)" by blast
  show ?thesis
    by (cases x) (simp_all add: listen_for_commands_def decode_wire_line r)
qed

text \<open>
  C6. A command is a \<open>dict\<close> of strings (its keys are distinct). When no key or value
  holds a high surrogate directly followed by a low surrogate, and the interpreter can
  enter one more level of recursion, the round trip gives the command back: the line
  written by \<open>send_command\<close> is \<open>json.dumps(command)\<close> as ASCII bytes with the
  terminator; the client decodes it, splits it off and passes it to \<open>json.loads\<close>,
  which returns the \<open>dict\<close> with the same keys and the same values in the same order;
  and this \<open>dict\<close> is what \<open>process_command\<close> is given.
\<close>

theorem C6_round_trip:
  "list_all member_ok d \<and> distinct (map fst d) \<and> 0 < recursion_depth ip \<longrightarrow>
     wire_line (json_dumps d) = Some (map char_of (json_dumps d) @ [CHR 0x0A])
     \<and> decode (map char_of (json_dumps d) @ [CHR 0x0A]) = Some (json_dumps d @ [NL])
     \<and> complete_lines (json_dumps d @ [NL]) = [json_dumps d]
     \<and> json_loads ip (strip (json_dumps d)) = Inr (command_json d)
     \<and> (\<exists>evs. listen_for_commands ip sys now True [Data (map char_of (json_dumps d) @ [CHR 0x0A])]
           = Recv 1024 # Process_command (command_json d) # evs)"
proof
  assume a: "list_all member_ok d \<and> distinct (map fst d) \<and> 0 < recursion_depth ip"
  then have j: "json_loads ip (json_dumps d) = Inr (command_json d)"
    by (simp add: json_loads_json_dumps)
  have c: "complete_lines (json_dumps d @ [NL]) = [json_dumps d]"
    using json_dumps_no_NL[of d]
    by (simp add: complete_lines_def split_on_append split_on_not_Nil)
  from j c listen_one_line[OF j] show
    "wire_line (json_dumps d) = Some (map char_of (json_dumps d) @ [CHR 0x0A])
     \<and> decode (map char_of (json_dumps d) @ [CHR 0x0A]) = Some (json_dumps d @ [NL])
     \<and> complete_lines (json_dumps d @ [NL]) = [json_dumps d]
     \<and> json_loads ip (strip (json_dumps d)) = Inr (command_json d)
     \<and> (\<exists>evs. listen_for_commands ip sys now True [Data (map char_of (json_dumps d) @ [CHR 0x0A])]
           = Recv 1024 # Process_command (command_json d) # evs)"
    by (simp add: wire_line_json_dumps decode_wire_line strip_json_dumps)
qed


theorem C6_round_trip_witness:
  "json_loads \<lparr>recursion_depth = 900, int_max_str_digits = 4300\<rparr>
     (strip (json_dumps [(ustr ''action'', ustr ''message''), (ustr ''content'', ustr ''Lab closing in 5 minutes'')]))
     = Inr (JObj [(ustr ''action'', JStr (ustr ''message'')),
                 (ustr ''content'', JStr (ustr ''Lab closing in 5 minutes''))])
   \<and> (\<exists>evs. listen_for_commands \<lparr>recursion_depth = 900, int_max_str_digits = 4300\<rparr> (\<lambda>c. None) [] True
          [Data (map char_of (json_dumps [(ustr ''action'', ustr ''message''), (ustr ''content'', ustr ''Lab closing in 5 minutes'')])
                 @ [CHR 0x0A])]
        = Recv 1024
          # Process_command (JObj [(ustr ''action'', JStr (ustr ''message'')),
                 (ustr ''content'', JStr (ustr ''Lab closing in 5 minutes''))])
          # evs)"
proof -
  let ?d = "[(ustr ''action'', ustr ''message''), (ustr ''content'', ustr ''Lab closing in 5 minutes'')]"
  let ?ip = "\<lparr>recursion_depth = 900, int_max_str_digits = 4300\<rparr>"
  have h: "list_all member_ok ?d \<and> distinct (map fst ?d) \<and> 0 < recursion_depth ?ip"
    by (simp add: member_ok_def python_text_def ustr_def)
  have c: "command_json ?d = JObj [(ustr ''action'', JStr (ustr ''message'')),
                 (ustr ''content'', JStr (ustr ''Lab closing in 5 minutes''))]"
    by (simp add: command_json_def)
  from h C6_round_trip[of ?d ?ip "\<lambda>c. None" "[]"] show ?thesis
    unfolding c by blast
qed

text \<open>The command \<open>{'action': 'message', 'content': c}\<close> where \<open>c\<close> is the text of the
  two code points U+D83D and U+DE00: \<open>json.dumps\<close> writes two escapes, which
  \<open>json.loads\<close> reads as the one code point U+1F600. The message that the client hands
  to \<open>process_command\<close> has another content than the command that was sent.\<close>

theorem C6_surrogate_pair_is_joined:
  "json_loads \<lparr>recursion_depth = 900, int_max_str_digits = 4300\<rparr>
     (json_dumps [(ustr ''action'', ustr ''message''), (ustr ''content'', [0xD83D, 0xDE00])])
     = Inr (JObj [(ustr ''action'', JStr (ustr ''message'')), (ustr ''content'', JStr [0x1F600])])
   \<and> json_loads \<lparr>recursion_depth = 900, int_max_str_digits = 4300\<rparr>
     (json_dumps [(ustr ''action'', ustr ''message''), (ustr ''content'', [0xD83D, 0xDE00])])
     \<noteq> Inr (command_json [(ustr ''action'', ustr ''message''), (ustr ''content'', [0xD83D, 0xDE00])])
   \<and> decoded (listen_for_commands \<lparr>recursion_depth = 900, int_max_str_digits = 4300\<rparr> (\<lambda>c. None) [] True
        [Data (the (wire_line (json_dumps [(ustr ''action'', ustr ''message''), (ustr ''content'', [0xD83D, 0xDE00])])))])
     = [JObj [(ustr ''action'', JStr (ustr ''message'')), (ustr ''content'', JStr [0x1F600])]]"
  by (simp add: eval_rules json_dumps_def dumps_item_def encode_basestring_ascii_def
      escape_char_def u_escape_def hexdigit_def command_json_def wire_line_def encode_def
      utf8_encode_char_def char_of_def bit_iff_odd show_message_def)

section \<open>Discovery\<close>

lemma probes_append: "probes (xs @ ys) = probes xs @ probes ys"
  by (induction xs rule: probes.induct) simp_all





section \<open>The connection loop\<close>












end
